theory Spec2Isabelle
  imports Complex_Main "HOL-Library.Multiset"
begin

section \<open>The stream pipeline of chain.py\<close>

text \<open>
  The development embeds the pipeline core of \<^verbatim>\<open>src/chain.py\<close>: the classes
  \<^verbatim>\<open>ParallelConfig\<close>, \<^verbatim>\<open>ExecutionStats\<close>, \<^verbatim>\<open>BaseStream\<close>, \<^verbatim>\<open>Stream\<close> and
  \<^verbatim>\<open>ParallelStream\<close>. The database adapter \<^verbatim>\<open>SQLChain\<close> only produces the source
  iterator and is not part of the model: a source is an iterator over a finite
  sequence of items.
\<close>

subsection \<open>Exceptions\<close>

text \<open>
  The exceptions the code raises or lets through. \<open>ValueError\<close>, \<open>TypeError\<close> and
  \<open>RuntimeError\<close> are the built-in ones (raised by \<^verbatim>\<open>reduce_async\<close>, \<^verbatim>\<open>range\<close>, the executors and
  \<^verbatim>\<open>functools.reduce\<close>), \<open>StreamError\<close> and \<open>ParallelExecutionError\<close> are the classes
  of the module, \<open>PicklingError\<close> is what \<^verbatim>\<open>pickle\<close> raises for an object it cannot
  serialise, and \<open>UserError\<close> stands for any other exception of class
  \<^verbatim>\<open>Exception\<close> that a caller-supplied function raises. \<open>StopIteration\<close> is kept
  apart, because the iterator protocol reads it as the end of an iterator. The chained
  cause (\<^verbatim>\<open>raise ... from e\<close>) and the message are not kept.
\<close>

datatype exn =
    ValueError | TypeError | RuntimeError | StopIteration | PicklingError
  | StreamError | ParallelExecutionError | UserError string

subsection \<open>Configuration and statistics\<close>

text \<open>
  The two dataclasses. Python integers are unbounded, hence \<open>int\<close>; the float fields
  are only stored and copied by the code, never computed with, and are kept as \<open>real\<close>.
\<close>

record ParallelConfig =
  chunk_size :: int
  num_workers :: int
  timeout :: "real option"
  retry_count :: int
  retry_delay :: real

record ExecutionStats =
  processed_items :: int
  failed_items :: int
  execution_time :: real
  error_count :: int

definition ExecutionStats_init :: ExecutionStats where
  "ExecutionStats_init =
     \<lparr>processed_items = 0, failed_items = 0, execution_time = 0, error_count = 0\<rparr>"

subsection \<open>Items\<close>

text \<open>
  The elements that flow through a pipeline are dynamically typed in the source. A row
  of the source has the caller's type \<open>'a\<close>; the only value the pipeline builds itself
  is the pair \<^verbatim>\<open>(k, list(g))\<close> of \<^verbatim>\<open>group_by\<close>, with a key of type \<open>'k\<close>.
\<close>

datatype ('a, 'k) item = Row 'a | Group 'k "('a, 'k) item list"

subsection \<open>Iterators\<close>

text \<open>
  A Python iterator is lazy: nothing happens until it is advanced, and advancing a
  generator of this module may update the shared statistics or advance the shared
  source before the next element comes out. An iterator is modelled by everything
  that happens when it is advanced to its end, in order: an element is yielded, an
  effect on the shared state takes place, an exception is raised, or the iterator
  stops. A consumer that raises abandons the rest of the iterator, so the effects
  behind that point never happen.
\<close>

datatype effect = Pull | AddProcessed int | IncErrorCount

datatype 'v iter = Stop | Raise exn | Yield 'v "'v iter" | Effect effect "'v iter"

text \<open>\<^verbatim>\<open>yield from xs\<close> followed by the rest \<open>k\<close> of the generator.\<close>

fun yield_from :: "'v list \<Rightarrow> 'v iter \<Rightarrow> 'v iter" where
  "yield_from [] k = k"
| "yield_from (x # xs) k = Yield x (yield_from xs k)"

fun effects :: "effect list \<Rightarrow> 'v iter \<Rightarrow> 'v iter" where
  "effects [] k = k"
| "effects (e # es) k = Effect e (effects es k)"

text \<open>
  \<^verbatim>\<open>list(it)\<close>: advances the iterator to its end. The result is the list of the
  elements, or the exception that ended the iteration; the effects that took place
  on the way come with it. An iterator that raises StopIteration has stopped.
\<close>

fun py_list :: "'v iter \<Rightarrow> effect list \<times> (exn + 'v list)" where
  "py_list Stop = ([], Inr [])"
| "py_list (Raise e) = (if e = StopIteration then ([], Inr []) else ([], Inl e))"
| "py_list (Yield v it) =
     (case py_list it of
        (es, Inl e) \<Rightarrow> (es, Inl e)
      | (es, Inr vs) \<Rightarrow> (es, Inr (v # vs)))"
| "py_list (Effect eff it) = (case py_list it of (es, r) \<Rightarrow> (eff # es, r))"

text \<open>
  The built-ins \<^verbatim>\<open>map(func, it)\<close> and \<^verbatim>\<open>filter(predicate, it)\<close>: lazy, element by
  element. An exception of the function leaves the \<^verbatim>\<open>__next__\<close> of the built-in as it
  is, so a StopIteration raised by the function is, for whoever advances the
  built-in, the end of the iterator: \<^verbatim>\<open>list(map(f, it))\<close> is then the list of the
  values before that element, and nothing is raised.
\<close>

fun py_map :: "('v \<Rightarrow> exn + 'v) \<Rightarrow> 'v iter \<Rightarrow> 'v iter" where
  "py_map func Stop = Stop"
| "py_map func (Raise e) = Raise e"
| "py_map func (Yield v it) =
     (case func v of
        Inl e \<Rightarrow> if e = StopIteration then Stop else Raise e
      | Inr w \<Rightarrow> Yield w (py_map func it))"
| "py_map func (Effect eff it) = Effect eff (py_map func it)"

fun py_filter :: "('v \<Rightarrow> exn + bool) \<Rightarrow> 'v iter \<Rightarrow> 'v iter" where
  "py_filter predicate Stop = Stop"
| "py_filter predicate (Raise e) = Raise e"
| "py_filter predicate (Yield v it) =
     (case predicate v of
        Inl e \<Rightarrow> if e = StopIteration then Stop else Raise e
      | Inr keep \<Rightarrow> if keep then Yield v (py_filter predicate it) else py_filter predicate it)"
| "py_filter predicate (Effect eff it) = Effect eff (py_filter predicate it)"

subsection \<open>Chunking\<close>

text \<open>
  \<^verbatim>\<open>ParallelStream._chunk_data\<close>:
  \<^verbatim>\<open>for i in range(0, len(data), chunk_size): yield data[i:i + chunk_size]\<close>.
  \<open>range_slices\<close> is the loop for a positive step, with the index \<open>i\<close> of the source.
  \<^verbatim>\<open>range\<close> raises ValueError for a step of zero, and is empty for a negative step
  (its start 0 is not above its stop \<^verbatim>\<open>len(data)\<close>).
\<close>

function range_slices :: "nat \<Rightarrow> nat \<Rightarrow> 'a list \<Rightarrow> 'a list list" where
  "range_slices step i data =
     (if step = 0 \<or> length data \<le> i then []
      else take step (drop i data) # range_slices step (i + step) data)"
  by pat_completeness auto
termination
  by (relation "measure (\<lambda>(step, i, data). length data - i)") auto

declare range_slices.simps [simp del]

definition chunk_data :: "ParallelConfig \<Rightarrow> 'a list \<Rightarrow> exn + 'a list list" where
  "chunk_data cfg data =
     (if chunk_size cfg = 0 then Inl ValueError
      else if chunk_size cfg < 0 then Inr []
      else Inr (range_slices (nat (chunk_size cfg)) 0 data))"

subsection \<open>Workers\<close>

text \<open>
  The caller's functions may raise, so each returns an exception or a value.
  \<^verbatim>\<open>_parallel_map_wrapper\<close> is \<^verbatim>\<open>[func(item) for item in chunk]\<close> and
  \<^verbatim>\<open>_parallel_filter_wrapper\<close> is \<^verbatim>\<open>[item for item in chunk if predicate(item)]\<close>:
  the first exception ends the comprehension.
\<close>

fun parallel_map_wrapper :: "('v \<Rightarrow> exn + 'v) \<Rightarrow> 'v list \<Rightarrow> exn + 'v list" where
  "parallel_map_wrapper func [] = Inr []"
| "parallel_map_wrapper func (item # chunk) =
     (case func item of
        Inl e \<Rightarrow> Inl e
      | Inr r \<Rightarrow>
          (case parallel_map_wrapper func chunk of Inl e \<Rightarrow> Inl e | Inr rs \<Rightarrow> Inr (r # rs)))"

fun parallel_filter_wrapper :: "('v \<Rightarrow> exn + bool) \<Rightarrow> 'v list \<Rightarrow> exn + 'v list" where
  "parallel_filter_wrapper predicate [] = Inr []"
| "parallel_filter_wrapper predicate (item # chunk) =
     (case predicate item of
        Inl e \<Rightarrow> Inl e
      | Inr keep \<Rightarrow>
          (case parallel_filter_wrapper predicate chunk of
             Inl e \<Rightarrow> Inl e
           | Inr rs \<Rightarrow> Inr (if keep then item # rs else rs)))"

text \<open>
  \<^verbatim>\<open>functools.reduce\<close>: a left fold. \<open>reduce_from\<close> is the fold from an accumulator;
  without an initial value the first element is the accumulator, and an empty
  sequence raises TypeError.
\<close>

fun reduce_from :: "('v \<Rightarrow> 'v \<Rightarrow> exn + 'v) \<Rightarrow> 'v \<Rightarrow> 'v list \<Rightarrow> exn + 'v" where
  "reduce_from func acc [] = Inr acc"
| "reduce_from func acc (x # xs) =
     (case func acc x of Inl e \<Rightarrow> Inl e | Inr acc' \<Rightarrow> reduce_from func acc' xs)"

definition functools_reduce ::
  "('v \<Rightarrow> 'v \<Rightarrow> exn + 'v) \<Rightarrow> 'v list \<Rightarrow> 'v option \<Rightarrow> exn + 'v" where
  "functools_reduce func xs initial =
     (case initial of
        Some a \<Rightarrow> reduce_from func a xs
      | None \<Rightarrow> (case xs of [] \<Rightarrow> Inl TypeError | x # xs' \<Rightarrow> reduce_from func x xs'))"

definition parallel_reduce_wrapper :: "('v \<Rightarrow> 'v \<Rightarrow> exn + 'v) \<Rightarrow> 'v list \<Rightarrow> exn + 'v" where
  "parallel_reduce_wrapper func chunk = functools_reduce func chunk None"

text \<open>
  \<^verbatim>\<open>loop.run_in_executor(executor, self._parallel_reduce_wrapper, args)\<close> with a process
  pool: the function and the chunk are pickled for the worker process. \<open>picklable\<close>
  says whether \<^verbatim>\<open>pickle\<close> can serialise them (it can for a function defined at the top
  level of a module, it cannot for a lambda or a closure); when it cannot, the task
  fails with the error of \<^verbatim>\<open>pickle\<close> and the function is never called.
\<close>

definition run_in_executor ::
  "('v \<Rightarrow> 'v \<Rightarrow> exn + 'v) \<Rightarrow> bool \<Rightarrow> 'v list \<Rightarrow> exn + 'v" where
  "run_in_executor func picklable chunk =
     (if picklable then parallel_reduce_wrapper func chunk else Inl PicklingError)"

text \<open>
  \<^verbatim>\<open>await asyncio.gather(*tasks)\<close>: the results of all tasks in the order of the
  tasks, or the exception of a task that failed. An \<^verbatim>\<open>asyncio\<close> future refuses a
  StopIteration (setting it raises TypeError inside the event loop), so the future of
  a task that failed with StopIteration stays pending for ever: when no task fails
  with another exception, the \<^verbatim>\<open>await\<close> never returns, which is \<open>None\<close> here.
\<close>

fun failures :: "(exn + 'v) list \<Rightarrow> exn list" where
  "failures [] = []"
| "failures (Inl e # tasks) = e # failures tasks"
| "failures (Inr v # tasks) = failures tasks"

fun results :: "(exn + 'v) list \<Rightarrow> 'v list" where
  "results [] = []"
| "results (Inl e # tasks) = results tasks"
| "results (Inr v # tasks) = v # results tasks"

definition gather :: "(exn + 'v) list \<Rightarrow> (exn + 'v list) option" where
  "gather tasks =
     (case filter (\<lambda>e. e \<noteq> StopIteration) (failures tasks) of
        e # es \<Rightarrow> Some (Inl e)
      | [] \<Rightarrow> if failures tasks = [] then Some (Inr (results tasks)) else None)"

subsection \<open>Grouping\<close>

text \<open>
  \<^verbatim>\<open>sorted(items, key=key)\<close> calls \<^verbatim>\<open>key\<close> once on every item, in order, and then
  sorts stably by the keys. \<open>keyed\<close> is the first step and keeps each key next to its
  item; \<^verbatim>\<open>itertools.groupby\<close> then cuts the sorted list into the runs of equal keys
  (it calls \<^verbatim>\<open>key\<close> again, which returns the key computed before).
\<close>

fun keyed :: "('v \<Rightarrow> exn + 'k) \<Rightarrow> 'v list \<Rightarrow> exn + ('k \<times> 'v) list" where
  "keyed key [] = Inr []"
| "keyed key (x # xs) =
     (case key x of
        Inl e \<Rightarrow> Inl e
      | Inr k \<Rightarrow> (case keyed key xs of Inl e \<Rightarrow> Inl e | Inr kvs \<Rightarrow> Inr ((k, x) # kvs)))"

definition py_sorted :: "('k::linorder \<times> 'v) list \<Rightarrow> ('k \<times> 'v) list" where
  "py_sorted kvs = sort_key fst kvs"

function groupby :: "('k \<times> 'v) list \<Rightarrow> ('k \<times> 'v list) list" where
  "groupby [] = []"
| "groupby ((k, v) # kvs) =
     (k, v # map snd (takeWhile (\<lambda>kv. fst kv = k) kvs))
       # groupby (dropWhile (\<lambda>kv. fst kv = k) kvs)"
  by pat_completeness auto
termination
  by (relation "measure length") (auto simp: length_dropWhile_le less_Suc_eq_le)

subsection \<open>Transform steps\<close>

text \<open>
  The closures a pipeline queues in \<^verbatim>\<open>self.transforms\<close>, one constructor per place
  that builds one: the lambdas of \<^verbatim>\<open>Stream.map\<close> and \<^verbatim>\<open>Stream.filter\<close>, the
  \<^verbatim>\<open>transform\<close> of \<^verbatim>\<open>Stream.group_by\<close>, and the \<^verbatim>\<open>transform\<close> generators of
  \<^verbatim>\<open>ParallelStream.map\<close> and \<^verbatim>\<open>ParallelStream.filter\<close>, which capture the
  configuration of the stream that built them.
\<close>

datatype ('a, 'k) transform =
    SeqMap "('a, 'k) item \<Rightarrow> exn + ('a, 'k) item"
  | SeqFilter "('a, 'k) item \<Rightarrow> exn + bool"
  | GroupBy "('a, 'k) item \<Rightarrow> exn + 'k"
  | ParMap ParallelConfig "('a, 'k) item \<Rightarrow> exn + ('a, 'k) item"
  | ParFilter ParallelConfig "('a, 'k) item \<Rightarrow> exn + bool"

text \<open>
  The \<^verbatim>\<open>transform\<close> of \<^verbatim>\<open>group_by\<close> is an ordinary function: it sorts, and so
  consumes its input, as soon as it is called. It returns the effects of that, and the
  exception raised or the (lazy) generator over the groups.
\<close>

definition group_by_transform ::
  "(('a, 'k::linorder) item \<Rightarrow> exn + 'k) \<Rightarrow> ('a, 'k) item iter
     \<Rightarrow> effect list \<times> (exn + ('a, 'k) item iter)" where
  "group_by_transform key items =
     (case py_list items of
        (es, Inl e) \<Rightarrow> (es, Inl e)
      | (es, Inr xs) \<Rightarrow>
          (case keyed key xs of
             Inl e \<Rightarrow> (es, Inl e)
           | Inr kvs \<Rightarrow>
               (es, Inr (yield_from (map (\<lambda>(k, g). Group k g) (groupby (py_sorted kvs))) Stop))))"

text \<open>
  \<^verbatim>\<open>executor.map(wrapper, chunk_args, timeout=self.config.timeout)\<close> hands out the
  chunk results in the order of the chunks. With a timeout, the wait for a result
  that is not ready when the time is over raises TimeoutError. Whether and where that
  happens depends on how fast the workers are, which the program does not decide: a
  run comes with \<open>wait\<close>, the index of the chunk whose wait times out, if any. Without
  a timeout no wait can time out.
\<close>

definition deadline :: "ParallelConfig \<Rightarrow> nat option \<Rightarrow> nat option" where
  "deadline cfg wait = (case timeout cfg of None \<Rightarrow> None | Some t \<Rightarrow> wait)"

text \<open>
  The loop over the chunk results, from chunk number \<open>i\<close> on: a result is yielded
  element by element and then counted. The exception of a failed worker, or the
  TimeoutError of the wait for chunk \<open>d\<close>, is raised when its turn comes, and the
  handler counts it and raises ParallelExecutionError.
\<close>

fun process_results :: "nat option \<Rightarrow> nat \<Rightarrow> (exn + 'v list) list \<Rightarrow> 'v iter" where
  "process_results d i [] = Stop"
| "process_results d i (r # chunk_results) =
     (if d = Some i then Effect IncErrorCount (Raise ParallelExecutionError)
      else
        (case r of
           Inl e \<Rightarrow> Effect IncErrorCount (Raise ParallelExecutionError)
         | Inr chunk_result \<Rightarrow>
             yield_from chunk_result
               (Effect (AddProcessed (int (length chunk_result)))
                  (process_results d (Suc i) chunk_results))))"

text \<open>
  The \<^verbatim>\<open>transform\<close> generators of \<^verbatim>\<open>ParallelStream.map\<close> and \<^verbatim>\<open>ParallelStream.filter\<close>
  differ in the wrapper only. On the first advance the input is materialised
  (\<^verbatim>\<open>list(it)\<close>) and chunked, outside the \<^verbatim>\<open>try\<close>; the executor's constructor raises
  ValueError for \<^verbatim>\<open>max_workers <= 0\<close>, also outside the \<^verbatim>\<open>try\<close>.
\<close>

definition parallel_transform ::
  "ParallelConfig \<Rightarrow> nat option \<Rightarrow> ('v list \<Rightarrow> exn + 'v list) \<Rightarrow> 'v iter \<Rightarrow> 'v iter" where
  "parallel_transform cfg wait wrapper it =
     (case py_list it of
        (es, Inl e) \<Rightarrow> effects es (Raise e)
      | (es, Inr data) \<Rightarrow>
          effects es
            (case chunk_data cfg data of
               Inl e \<Rightarrow> Raise e
             | Inr chunks \<Rightarrow>
                 if num_workers cfg \<le> 0 then Raise ValueError
                 else process_results (deadline cfg wait) 0 (map wrapper chunks)))"

text \<open>A call \<^verbatim>\<open>transform(result)\<close>; \<open>wait\<close> is for the step, should it be a parallel one.\<close>

fun apply_transform ::
  "nat option \<Rightarrow> ('a, 'k::linorder) transform \<Rightarrow> ('a, 'k) item iter
     \<Rightarrow> effect list \<times> (exn + ('a, 'k) item iter)" where
  "apply_transform wait (SeqMap func) it = ([], Inr (py_map func it))"
| "apply_transform wait (SeqFilter predicate) it = ([], Inr (py_filter predicate it))"
| "apply_transform wait (GroupBy key) it = group_by_transform key it"
| "apply_transform wait (ParMap cfg func) it =
     ([], Inr (parallel_transform cfg wait (parallel_map_wrapper func) it))"
| "apply_transform wait (ParFilter cfg predicate) it =
     ([], Inr (parallel_transform cfg wait (parallel_filter_wrapper predicate) it))"

subsection \<open>Executing a pipeline\<close>

text \<open>
  \<^verbatim>\<open>BaseStream._execute\<close>: the loop \<^verbatim>\<open>for transform in self.transforms: result = transform(result)\<close>
  under a \<^verbatim>\<open>try\<close> that turns an exception raised by a call of a transform into
  StreamError. What the returned iterator raises later is outside that \<^verbatim>\<open>try\<close>.
  \<open>waits\<close> gives, for the step at each position of the queue, the chunk whose wait
  times out in this run; \<open>i\<close> is the position of the first step of the list.
\<close>

fun run_transforms ::
  "(nat \<Rightarrow> nat option) \<Rightarrow> nat \<Rightarrow> ('a, 'k::linorder) transform list \<Rightarrow> ('a, 'k) item iter
     \<Rightarrow> effect list \<times> (exn + ('a, 'k) item iter)" where
  "run_transforms waits i [] result = ([], Inr result)"
| "run_transforms waits i (t # ts) result =
     (case apply_transform (waits i) t result of
        (es, Inl e) \<Rightarrow> (es, Inl e)
      | (es, Inr result') \<Rightarrow>
          (case run_transforms waits (Suc i) ts result' of (es', r) \<Rightarrow> (es @ es', r)))"

definition execute ::
  "(nat \<Rightarrow> nat option) \<Rightarrow> ('a, 'k::linorder) transform list \<Rightarrow> ('a, 'k) item iter
     \<Rightarrow> effect list \<times> (exn + ('a, 'k) item iter)" where
  "execute waits ts src =
     (case run_transforms waits 0 ts src of
        (es, Inl e) \<Rightarrow> (es, Inl StreamError)
      | (es, Inr result) \<Rightarrow> (es, Inr result))"

subsection \<open>The shared state of a chain\<close>

text \<open>
  Every stream derived from a common ancestor holds a reference to the same source
  iterator and to the same \<^verbatim>\<open>ExecutionStats\<close> object. The two objects form the state
  of the chain: \<open>source\<close> is what the source iterator has not produced yet. What a run
  does depends on one thing more, the waits that time out; \<open>timed_out\<close> gives, for
  each position of the queue, the chunk at which the parallel step there times out
  (\<open>None\<close>: at no chunk). No operation changes it.
\<close>

record ('a, 'k) chain =
  source :: "('a, 'k) item list"
  stats :: ExecutionStats
  timed_out :: "nat \<Rightarrow> nat option"

fun source_iter :: "'v list \<Rightarrow> 'v iter" where
  "source_iter [] = Stop"
| "source_iter (x # xs) = Effect Pull (Yield x (source_iter xs))"

fun perform :: "effect \<Rightarrow> ('a, 'k) chain \<Rightarrow> ('a, 'k) chain" where
  "perform Pull c = c\<lparr>source := tl (source c)\<rparr>"
| "perform (AddProcessed n) c =
     c\<lparr>stats := (stats c)\<lparr>processed_items := processed_items (stats c) + n\<rparr>\<rparr>"
| "perform IncErrorCount c =
     c\<lparr>stats := (stats c)\<lparr>error_count := error_count (stats c) + 1\<rparr>\<rparr>"

definition perform_all :: "effect list \<Rightarrow> ('a, 'k) chain \<Rightarrow> ('a, 'k) chain" where
  "perform_all es c = fold perform es c"

text \<open>\<^verbatim>\<open>list(self._execute())\<close>, as the terminal operations call it.\<close>

definition list_execute ::
  "('a, 'k::linorder) transform list \<Rightarrow> ('a, 'k) chain
     \<Rightarrow> (exn + ('a, 'k) item list) \<times> ('a, 'k) chain" where
  "list_execute ts c =
     (case execute (timed_out c) ts (source_iter (source c)) of
        (es, Inl e) \<Rightarrow> (Inl e, perform_all es c)
      | (es, Inr it) \<Rightarrow> (case py_list it of (es', r) \<Rightarrow> (r, perform_all (es @ es') c)))"

subsection \<open>Streams\<close>

text \<open>
  A stream object holds its queue of transforms and its cache; a parallel stream
  holds its configuration as well. The source and the statistics are in the chain.
  Every builder returns a new object, whose cache is empty.
\<close>

record ('a, 'k) BaseStream =
  transforms :: "('a, 'k) transform list"
  cached_results :: "('a, 'k) item list option"

record ('a, 'k) ParallelStream = "('a, 'k) BaseStream" +
  config :: ParallelConfig

definition Stream_init :: "('a, 'k) transform list option \<Rightarrow> ('a, 'k) BaseStream" where
  "Stream_init ts =
     \<lparr>transforms = (case ts of None \<Rightarrow> [] | Some ts' \<Rightarrow> ts'), cached_results = None\<rparr>"

definition collect_async ::
  "('a, 'k::linorder, 'z) BaseStream_scheme \<Rightarrow> ('a, 'k) chain
     \<Rightarrow> (exn + ('a, 'k) item list) \<times> ('a, 'k, 'z) BaseStream_scheme \<times> ('a, 'k) chain" where
  "collect_async self c =
     (case cached_results self of
        Some cached \<Rightarrow> (Inr cached, self, c)
      | None \<Rightarrow>
          (case list_execute (transforms self) c of
             (Inl e, c') \<Rightarrow> (Inl e, self, c')
           | (Inr r, c') \<Rightarrow> (Inr r, self\<lparr>cached_results := Some r\<rparr>, c')))"

definition Stream_map ::
  "(('a, 'k) item \<Rightarrow> exn + ('a, 'k) item) \<Rightarrow> ('a, 'k) BaseStream \<Rightarrow> ('a, 'k) BaseStream" where
  "Stream_map func self =
     \<lparr>transforms = transforms self @ [SeqMap func], cached_results = None\<rparr>"

definition Stream_filter ::
  "(('a, 'k) item \<Rightarrow> exn + bool) \<Rightarrow> ('a, 'k) BaseStream \<Rightarrow> ('a, 'k) BaseStream" where
  "Stream_filter predicate self =
     \<lparr>transforms = transforms self @ [SeqFilter predicate], cached_results = None\<rparr>"

definition Stream_group_by ::
  "(('a, 'k) item \<Rightarrow> exn + 'k) \<Rightarrow> ('a, 'k) BaseStream \<Rightarrow> ('a, 'k) BaseStream" where
  "Stream_group_by key self =
     \<lparr>transforms = transforms self @ [GroupBy key], cached_results = None\<rparr>"

text \<open>\<^verbatim>\<open>x or d\<close> for an optional integer: \<^verbatim>\<open>None\<close> and \<^verbatim>\<open>0\<close> are falsy.\<close>

definition py_or :: "int option \<Rightarrow> int \<Rightarrow> int" where
  "py_or x d = (case x of None \<Rightarrow> d | Some n \<Rightarrow> if n = 0 then d else n)"

definition Stream_parallel ::
  "int option \<Rightarrow> int option \<Rightarrow> real option \<Rightarrow> ('a, 'k) BaseStream \<Rightarrow> ('a, 'k) ParallelStream" where
  "Stream_parallel num_workers' chunk_size' timeout' self =
     \<lparr>transforms = transforms self, cached_results = None,
      config = \<lparr>chunk_size = py_or chunk_size' 1000, num_workers = py_or num_workers' 1,
                timeout = timeout', retry_count = 3, retry_delay = 1\<rparr>\<rparr>"

definition Stream_collect ::
  "('a, 'k::linorder) BaseStream \<Rightarrow> ('a, 'k) chain
     \<Rightarrow> (exn + ('a, 'k) item list) \<times> ('a, 'k) chain" where
  "Stream_collect self c = list_execute (transforms self) c"

definition ParallelStream_map ::
  "(('a, 'k) item \<Rightarrow> exn + ('a, 'k) item) \<Rightarrow> ('a, 'k) ParallelStream
     \<Rightarrow> ('a, 'k) ParallelStream" where
  "ParallelStream_map func self =
     \<lparr>transforms = transforms self @ [ParMap (config self) func], cached_results = None,
      config = config self\<rparr>"

definition ParallelStream_filter ::
  "(('a, 'k) item \<Rightarrow> exn + bool) \<Rightarrow> ('a, 'k) ParallelStream \<Rightarrow> ('a, 'k) ParallelStream" where
  "ParallelStream_filter predicate self =
     \<lparr>transforms = transforms self @ [ParFilter (config self) predicate], cached_results = None,
      config = config self\<rparr>"

text \<open>
  \<^verbatim>\<open>ParallelStream.reduce_async\<close>. The materialisation, the test for empty data, the
  chunking and the constructor of the process pool (ValueError for
  \<^verbatim>\<open>max_workers <= 0\<close>) are outside the \<^verbatim>\<open>try\<close>; the handler of the \<^verbatim>\<open>try\<close> counts
  the error and raises ParallelExecutionError. The workers are separate processes,
  so \<open>picklable\<close> says whether the function and the items can be sent to them. The
  call returns a result and a state of the chain, or it never returns (\<open>None\<close>).
\<close>

definition inc_error_count :: "('a, 'k) chain \<Rightarrow> ('a, 'k) chain" where
  "inc_error_count c = c\<lparr>stats := (stats c)\<lparr>error_count := error_count (stats c) + 1\<rparr>\<rparr>"

definition set_processed_items :: "int \<Rightarrow> ('a, 'k) chain \<Rightarrow> ('a, 'k) chain" where
  "set_processed_items n c = c\<lparr>stats := (stats c)\<lparr>processed_items := n\<rparr>\<rparr>"

definition reduce_async ::
  "('a, 'k::linorder) ParallelStream
     \<Rightarrow> (('a, 'k) item \<Rightarrow> ('a, 'k) item \<Rightarrow> exn + ('a, 'k) item) \<Rightarrow> bool
     \<Rightarrow> ('a, 'k) item option
     \<Rightarrow> ('a, 'k) chain \<Rightarrow> ((exn + ('a, 'k) item) \<times> ('a, 'k) chain) option" where
  "reduce_async self func picklable initial c =
     (case list_execute (transforms self) c of
        (Inl e, c1) \<Rightarrow> Some (Inl e, c1)
      | (Inr data, c1) \<Rightarrow>
          if data = [] then Some (Inl ValueError, c1)
          else
            (case chunk_data (config self) data of
               Inl e \<Rightarrow> Some (Inl e, c1)
             | Inr chunks \<Rightarrow>
                 if num_workers (config self) \<le> 0 then Some (Inl ValueError, c1)
                 else
                   (case gather (map (run_in_executor func picklable) chunks) of
                      None \<Rightarrow> None
                    | Some (Inl e) \<Rightarrow> Some (Inl ParallelExecutionError, inc_error_count c1)
                    | Some (Inr chunk_results) \<Rightarrow>
                        let c2 = set_processed_items (int (length data)) c1 in
                        (case functools_reduce func chunk_results initial of
                           Inl e \<Rightarrow> Some (Inl ParallelExecutionError, inc_error_count c2)
                         | Inr v \<Rightarrow> Some (Inr v, c2)))))"

subsection \<open>Retrying\<close>

text \<open>
  \<^verbatim>\<open>ParallelStream._retry_operation\<close>. An operation may behave differently from one
  call to the next, so it acts on a state \<open>'w\<close> of its own. The helper returns what
  the operation returned, raises what its last attempt raised, or falls out of the
  \<^verbatim>\<open>while\<close> loop and returns \<^verbatim>\<open>None\<close>, which is \<open>Inr None\<close> here. The delays it has
  slept are recorded next to the state of the operation; the warning it prints before
  a sleep is not. The helper is a coroutine, and a StopIteration that leaves a
  coroutine reaches its caller as RuntimeError.
\<close>

definition coroutine_raise :: "exn \<Rightarrow> exn" where
  "coroutine_raise e = (if e = StopIteration then RuntimeError else e)"

function retry_operation ::
  "('x \<Rightarrow> 'w \<Rightarrow> (exn + 'r) \<times> 'w) \<Rightarrow> 'x \<Rightarrow> int \<Rightarrow> real \<Rightarrow> 'w \<times> real list
     \<Rightarrow> (exn + 'r option) \<times> 'w \<times> real list" where
  "retry_operation operation args retry_count' retry_delay' (w, slept) =
     (if retry_count' > 0 then
        (case operation args w of
           (Inr r, w') \<Rightarrow> (Inr (Some r), w', slept)
         | (Inl e, w') \<Rightarrow>
             if retry_count' - 1 > 0
             then retry_operation operation args (retry_count' - 1) retry_delay'
                    (w', slept @ [retry_delay'])
             else (Inl (coroutine_raise e), w', slept))
      else (Inr None, w, slept))"
  by pat_completeness auto
termination
  by (relation "measure (\<lambda>(operation, args, n, d, s). nat n)") auto

declare retry_operation.simps [simp del]

subsection \<open>Predicates on pipelines\<close>

text \<open>
  A transform step is sequential when a \<^verbatim>\<open>Stream\<close> queued it; the two other steps are
  queued by a \<^verbatim>\<open>ParallelStream\<close> only.
\<close>

fun sequential :: "('a, 'k) transform \<Rightarrow> bool" where
  "sequential (SeqMap func) = True"
| "sequential (SeqFilter predicate) = True"
| "sequential (GroupBy key) = True"
| "sequential (ParMap cfg func) = False"
| "sequential (ParFilter cfg predicate) = False"

text \<open>Every effect of an iterator satisfies \<open>P\<close>.\<close>

fun all_effects :: "(effect \<Rightarrow> bool) \<Rightarrow> 'v iter \<Rightarrow> bool" where
  "all_effects P Stop = True"
| "all_effects P (Raise e) = True"
| "all_effects P (Yield v it) = all_effects P it"
| "all_effects P (Effect eff it) = (P eff \<and> all_effects P it)"

text \<open>\<open>P\<close> admits the effects of the parallel steps: counting an error, and adding a length.\<close>

definition counts :: "(effect \<Rightarrow> bool) \<Rightarrow> bool" where
  "counts P = (P IncErrorCount \<and> (\<forall>n. P (AddProcessed (int n))))"

text \<open>No field of the statistics is smaller in \<open>t\<close> than in \<open>s\<close>.\<close>

definition stats_le :: "ExecutionStats \<Rightarrow> ExecutionStats \<Rightarrow> bool" where
  "stats_le s t =
     (processed_items s \<le> processed_items t \<and> failed_items s \<le> failed_items t
      \<and> execution_time s \<le> execution_time t \<and> error_count s \<le> error_count t)"

text \<open>
  The invariant the specification asks of a configuration. The code never tests it.
\<close>

definition valid_config :: "ParallelConfig \<Rightarrow> bool" where
  "valid_config cfg = (1 \<le> chunk_size cfg \<and> 1 \<le> num_workers cfg)"

subsection \<open>Callers' functions and a chain for the examples\<close>

text \<open>
  A function that squares an integer row, one that adds two integer rows (each raises
  TypeError on anything else), the parity of an integer row as a key, and a fresh chain
  over the rows 1, 2, 3, in which no wait times out.
\<close>

fun square :: "(int, int) item \<Rightarrow> exn + (int, int) item" where
  "square (Row n) = Inr (Row (n * n))"
| "square (Group k g) = Inl TypeError"

fun add :: "(int, int) item \<Rightarrow> (int, int) item \<Rightarrow> exn + (int, int) item" where
  "add (Row m) (Row n) = Inr (Row (m + n))"
| "add x y = Inl TypeError"

fun parity :: "(int, int) item \<Rightarrow> int" where
  "parity (Row n) = n mod 2"
| "parity (Group k g) = k"

text \<open>The integer of a row, and a sum and a square that never raise.\<close>

fun row_value :: "(int, int) item \<Rightarrow> int" where
  "row_value (Row n) = n"
| "row_value (Group k g) = k"

definition plus_rows :: "(int, int) item \<Rightarrow> (int, int) item \<Rightarrow> (int, int) item" where
  "plus_rows x y = Row (row_value x + row_value y)"

definition squared :: "(int, int) item \<Rightarrow> (int, int) item" where
  "squared x = Row (row_value x * row_value x)"

definition rows123 :: "(int, int) chain" where
  "rows123 =
     \<lparr>source = [Row 1, Row 2, Row 3], stats = ExecutionStats_init, timed_out = (\<lambda>i. None)\<rparr>"

section \<open>Properties\<close>

lemmas run_defs = list_execute_def execute_def perform_all_def parallel_transform_def
  deadline_def chunk_data_def range_slices.simps


subsection \<open>Chunking\<close>

lemma range_slices_concat:
  "0 < step \<Longrightarrow> concat (range_slices step i data) = drop i data"
proof (induction step i data rule: range_slices.induct)
  case (1 step i data)
  show ?case
  proof (cases "length data \<le> i")
    case True
    then show ?thesis by (simp add: range_slices.simps [of step i data])
  next
    case False
    with 1 have "concat (range_slices step (i + step) data) = drop (i + step) data"
      by simp
    moreover have "take step (drop i data) @ drop (i + step) data = drop i data"
      by (metis add.commute append_take_drop_id drop_drop)
    ultimately show ?thesis
      using False 1(2) by (simp add: range_slices.simps [of step i data])
  qed
qed

lemma range_slices_nth:
  "0 < step \<Longrightarrow> j < length (range_slices step i data) \<Longrightarrow>
   range_slices step i data ! j = take step (drop (i + j * step) data)
   \<and> i + j * step < length data"
proof (induction step i data arbitrary: j rule: range_slices.induct)
  case (1 step i data)
  show ?case
  proof (cases "length data \<le> i")
    case True
    with 1(3) show ?thesis by (simp add: range_slices.simps [of step i data])
  next
    case False
    show ?thesis
    proof (cases j)
      case 0
      with False 1(2) show ?thesis by (simp add: range_slices.simps [of step i data])
    next
      case (Suc j')
      with False 1(2,3) have "j' < length (range_slices step (i + step) data)"
        by (simp add: range_slices.simps [of step i data])
      with 1(1) [of j'] False 1(2)
      have "range_slices step (i + step) data ! j' = take step (drop (i + step + j' * step) data)
            \<and> i + step + j' * step < length data"
        by simp
      with Suc False 1(2) show ?thesis
        by (simp add: range_slices.simps [of step i data] add.assoc)
    qed
  qed
qed

text \<open>
  C5. For every list and every chunk size of at least one, \<open>chunk_data\<close> returns
  chunks whose concatenation is the list itself; chunk number \<open>i\<close> is the slice of
  the list that starts at index \<open>i * chunk_size\<close> and is \<open>chunk_size\<close> long (so the
  chunks are contiguous, in order and do not overlap); no chunk is empty, none is
  longer than \<open>chunk_size\<close>, and every chunk but the last has exactly that length.
\<close>

theorem chunk_data_partitions:
  assumes "1 \<le> chunk_size cfg"
  shows "\<exists>chunks. chunk_data cfg data = Inr chunks
           \<and> concat chunks = data
           \<and> (\<forall>i < length chunks.
                 chunks ! i = take (nat (chunk_size cfg)) (drop (i * nat (chunk_size cfg)) data)
                 \<and> chunks ! i \<noteq> []
                 \<and> int (length (chunks ! i)) \<le> chunk_size cfg
                 \<and> (Suc i < length chunks \<longrightarrow> int (length (chunks ! i)) = chunk_size cfg))"
proof -
  define step where "step = nat (chunk_size cfg)"
  define chunks where "chunks = range_slices step 0 data"
  have step: "0 < step" "int step = chunk_size cfg"
    using assms by (simp_all add: step_def)
  have res: "chunk_data cfg data = Inr chunks"
    using assms by (simp add: chunk_data_def chunks_def step_def)
  have cat: "concat chunks = data"
    using range_slices_concat [OF step(1), of 0 data] by (simp add: chunks_def)
  have each: "chunks ! i = take step (drop (i * step) data) \<and> chunks ! i \<noteq> []
      \<and> length (chunks ! i) \<le> step \<and> (Suc i < length chunks \<longrightarrow> length (chunks ! i) = step)"
    if i: "i < length chunks" for i
  proof -
    from range_slices_nth [OF step(1), of i 0 data] i
    have nth: "chunks ! i = take step (drop (i * step) data)" and lt: "i * step < length data"
      by (simp_all add: chunks_def)
    have full: "length (chunks ! i) = step" if "Suc i < length chunks"
    proof -
      from range_slices_nth [OF step(1), of "Suc i" 0 data] that
      have "Suc i * step < length data" by (simp add: chunks_def)
      then have "step \<le> length data - i * step" by simp
      with nth show ?thesis by simp
    qed
    from nth lt step(1) have "chunks ! i \<noteq> []" by simp
    moreover from nth have "length (chunks ! i) \<le> step" by simp
    ultimately show ?thesis using nth full by blast
  qed
  have "\<forall>i < length chunks.
          chunks ! i = take (nat (chunk_size cfg)) (drop (i * nat (chunk_size cfg)) data)
          \<and> chunks ! i \<noteq> []
          \<and> int (length (chunks ! i)) \<le> chunk_size cfg
          \<and> (Suc i < length chunks \<longrightarrow> int (length (chunks ! i)) = chunk_size cfg)"
  proof (intro allI impI)
    fix i assume "i < length chunks"
    from each [OF this]
    have a: "chunks ! i = take step (drop (i * step) data)" and b: "chunks ! i \<noteq> []"
      and c: "length (chunks ! i) \<le> step"
      and d: "Suc i < length chunks \<longrightarrow> length (chunks ! i) = step"
      by blast+
    from a have "chunks ! i = take (nat (chunk_size cfg)) (drop (i * nat (chunk_size cfg)) data)"
      by (simp only: step_def)
    moreover from c step(2) have "int (length (chunks ! i)) \<le> chunk_size cfg"
      by linarith
    moreover from d step(2)
    have "Suc i < length chunks \<longrightarrow> int (length (chunks ! i)) = chunk_size cfg"
      by auto
    ultimately show "chunks ! i = take (nat (chunk_size cfg)) (drop (i * nat (chunk_size cfg)) data)
          \<and> chunks ! i \<noteq> []
          \<and> int (length (chunks ! i)) \<le> chunk_size cfg
          \<and> (Suc i < length chunks \<longrightarrow> int (length (chunks ! i)) = chunk_size cfg)"
      using b by blast
  qed
  with res cat show ?thesis by blast
qed

text \<open>Seven elements in chunks of three: two full chunks and a shorter last one.\<close>

theorem chunk_data_partitions_witness:
  "chunk_data \<lparr>chunk_size = 3, num_workers = 1, timeout = None, retry_count = 3, retry_delay = 1\<rparr>
     [1, 2, 3, 4, 5, 6, 7 :: int] = Inr [[1, 2, 3], [4, 5, 6], [7]]
   \<and> (\<exists>chunks. chunk_data \<lparr>chunk_size = 3, num_workers = 1, timeout = None, retry_count = 3,
          retry_delay = 1\<rparr> [1, 2, 3, 4, 5, 6, 7 :: int] = Inr chunks \<and> concat chunks = [1, 2, 3, 4, 5, 6, 7])"
proof -
  let ?cfg = "\<lparr>chunk_size = 3, num_workers = 1, timeout = None, retry_count = 3, retry_delay = 1\<rparr>"
  have h: "1 \<le> chunk_size ?cfg" by simp
  have "chunk_data ?cfg [1, 2, 3, 4, 5, 6, 7 :: int] = Inr [[1, 2, 3], [4, 5, 6], [7]]"
    by (simp add: chunk_data_def range_slices.simps)
  moreover from chunk_data_partitions [OF h, of "[1, 2, 3, 4, 5, 6, 7 :: int]"]
  have "\<exists>chunks. chunk_data ?cfg [1, 2, 3, 4, 5, 6, 7 :: int] = Inr chunks
          \<and> concat chunks = [1, 2, 3, 4, 5, 6, 7]"
    by blast
  ultimately show ?thesis by blast
qed

subsection \<open>The effects of a pipeline\<close>

lemma all_effects_yield_from [simp]: "all_effects P (yield_from xs k) = all_effects P k"
  by (induction xs) auto

lemma all_effects_effects [simp]: "all_effects P (effects es k) = (list_all P es \<and> all_effects P k)"
  by (induction es) auto

lemma py_list_effects: "all_effects P it \<Longrightarrow> list_all P (fst (py_list it))"
  by (induction it) (auto split: prod.splits sum.splits)

lemma all_effects_py_map: "all_effects P it \<Longrightarrow> all_effects P (py_map func it)"
  by (induction it) (auto split: sum.splits)

lemma all_effects_py_filter: "all_effects P it \<Longrightarrow> all_effects P (py_filter predicate it)"
  by (induction it) (auto split: sum.splits)

lemma all_effects_source_iter: "P Pull \<Longrightarrow> all_effects P (source_iter xs)"
  by (induction xs) auto

lemma all_effects_process_results: "counts P \<Longrightarrow> all_effects P (process_results d i rs)"
  by (induction rs arbitrary: i) (auto simp: counts_def split: sum.splits)

lemma all_effects_parallel_transform:
  "counts P \<Longrightarrow> all_effects P it \<Longrightarrow> all_effects P (parallel_transform cfg wait wrapper it)"
  using py_list_effects [of P it]
  by (auto simp: parallel_transform_def all_effects_process_results split: prod.splits sum.splits)

lemma group_by_transform_effects:
  "all_effects P it \<Longrightarrow> group_by_transform key it = (es, r) \<Longrightarrow>
   list_all P es \<and> (\<forall>it'. r = Inr it' \<longrightarrow> all_effects P it')"
  using py_list_effects [of P it]
  by (auto simp: group_by_transform_def split: prod.splits sum.splits)

lemma apply_transform_effects:
  "all_effects P it \<Longrightarrow> sequential t \<or> counts P \<Longrightarrow> apply_transform wait t it = (es, r) \<Longrightarrow>
   list_all P es \<and> (\<forall>it'. r = Inr it' \<longrightarrow> all_effects P it')"
  by (cases t)
    (auto simp: all_effects_py_map all_effects_py_filter all_effects_parallel_transform
       dest: group_by_transform_effects)

lemma run_transforms_effects:
  "all_effects P it \<Longrightarrow> (\<forall>t \<in> set ts. sequential t) \<or> counts P \<Longrightarrow>
   run_transforms waits i ts it = (es, r) \<Longrightarrow>
   list_all P es \<and> (\<forall>it'. r = Inr it' \<longrightarrow> all_effects P it')"
proof (induction ts arbitrary: i it es r)
  case Nil
  then show ?case by auto
next
  case (Cons t ts)
  obtain es1 r1 where a: "apply_transform (waits i) t it = (es1, r1)"
    by (cases "apply_transform (waits i) t it")
  from Cons.prems(2) have "sequential t \<or> counts P" by auto
  from apply_transform_effects [OF Cons.prems(1) this a]
  have e1: "list_all P es1" and i1: "\<forall>it'. r1 = Inr it' \<longrightarrow> all_effects P it'" by blast+
  show ?case
  proof (cases r1)
    case (Inl e)
    with a Cons.prems(3) e1 show ?thesis by auto
  next
    case (Inr it1)
    obtain es2 r2 where b: "run_transforms waits (Suc i) ts it1 = (es2, r2)"
      by (cases "run_transforms waits (Suc i) ts it1")
    from Cons.prems(2) have "(\<forall>t \<in> set ts. sequential t) \<or> counts P" by auto
    from Cons.IH [OF _ this b] i1 Inr
    have "list_all P es2 \<and> (\<forall>it'. r2 = Inr it' \<longrightarrow> all_effects P it')" by blast
    with a b Inr Cons.prems(3) e1 show ?thesis by auto
  qed
qed

lemma list_execute_effects:
  assumes "P Pull" and "(\<forall>t \<in> set ts. sequential t) \<or> counts P"
    and step: "\<And>eff (c' :: ('a, 'k::linorder) chain). P eff \<Longrightarrow> R (stats c') (stats (perform eff c'))"
    and refl: "\<And>s. R s s" and trans: "\<And>s t u. R s t \<Longrightarrow> R t u \<Longrightarrow> R s u"
  shows "R (stats c) (stats (snd (list_execute ts (c :: ('a, 'k) chain))))"
proof -
  have fold: "list_all P es \<Longrightarrow> R (stats c) (stats (perform_all es c))" for es and c :: "('a, 'k) chain"
    unfolding perform_all_def
  proof (induction es arbitrary: c)
    case Nil
    then show ?case by (simp add: refl)
  next
    case (Cons e es)
    from Cons.prems have "R (stats c) (stats (perform e c))" by (simp add: step)
    moreover from Cons have "R (stats (perform e c)) (stats (fold perform es (perform e c)))" by simp
    ultimately show ?case using trans by auto
  qed
  obtain es r where a: "run_transforms (timed_out c) 0 ts (source_iter (source c)) = (es, r)"
    by (cases "run_transforms (timed_out c) 0 ts (source_iter (source c))")
  have "all_effects P (source_iter (source c))"
    using assms(1) by (rule all_effects_source_iter)
  from run_transforms_effects [OF this assms(2) a]
  have e: "list_all P es" and i: "\<forall>it'. r = Inr it' \<longrightarrow> all_effects P it'" by blast+
  show ?thesis
  proof (cases r)
    case (Inl ex)
    with a e show ?thesis by (simp add: list_execute_def execute_def fold)
  next
    case (Inr it')
    with i have "list_all P (fst (py_list it'))" by (simp add: py_list_effects)
    with e have "list_all P (es @ fst (py_list it'))" by simp
    from fold [OF this, of c] a Inr show ?thesis
      by (cases "py_list it'") (simp add: list_execute_def execute_def)
  qed
qed

lemma list_execute_monotone: "stats_le (stats c) (stats (snd (list_execute ts c)))"
proof (rule list_execute_effects [where P = "\<lambda>eff. case eff of AddProcessed n \<Rightarrow> 0 \<le> n | _ \<Rightarrow> True"])
  show "case Pull of AddProcessed n \<Rightarrow> 0 \<le> n | _ \<Rightarrow> True" by simp
  show "(\<forall>t \<in> set ts. sequential t)
      \<or> counts (\<lambda>eff. case eff of AddProcessed n \<Rightarrow> 0 \<le> n | _ \<Rightarrow> True)"
    by (simp add: counts_def)
  show "stats_le (stats c') (stats (perform eff c'))"
    if "case eff of AddProcessed n \<Rightarrow> 0 \<le> n | _ \<Rightarrow> True" for eff and c' :: "('a, 'b) chain"
    using that by (cases eff) (simp_all add: stats_le_def)
  show "stats_le s s" for s by (simp add: stats_le_def)
  show "stats_le s u" if "stats_le s t" "stats_le t u" for s t u
    using that by (auto simp: stats_le_def)
qed

subsection \<open>Executing one more step\<close>

lemma run_transforms_snoc:
  "run_transforms waits i (ts @ [t]) it =
     (case run_transforms waits i ts it of
        (es, Inl e) \<Rightarrow> (es, Inl e)
      | (es, Inr it') \<Rightarrow>
          (case apply_transform (waits (i + length ts)) t it' of (es', r) \<Rightarrow> (es @ es', r)))"
  by (induction ts arbitrary: i it) (auto split: prod.splits sum.splits)

lemma py_list_yield_from:
  "py_list (yield_from xs k) = (fst (py_list k), map_sum id ((@) xs) (snd (py_list k)))"
proof (induction xs)
  case Nil
  obtain es r where "py_list k = (es, r)" by (cases "py_list k")
  then show ?case by (cases r) simp_all
next
  case (Cons x xs)
  obtain es r where "py_list k = (es, r)" by (cases "py_list k")
  with Cons show ?case by (cases r) simp_all
qed

lemma py_list_effects_prefix:
  "py_list (effects es k) = (es @ fst (py_list k), snd (py_list k))"
  by (induction es) (auto split: prod.splits)

lemma py_list_not_StopIteration: "snd (py_list it) \<noteq> Inl StopIteration"
  by (induction it) (auto split: prod.splits sum.splits)

lemma chunk_data_positive:
  "1 \<le> chunk_size cfg \<Longrightarrow> chunk_data cfg data = Inr (range_slices (nat (chunk_size cfg)) 0 data)"
  by (simp add: chunk_data_def)

lemma fst_collect_async_fresh:
  "cached_results self = None \<Longrightarrow>
   fst (collect_async self c) = fst (list_execute (transforms self) c)"
  by (cases "list_execute (transforms self) c")
    (auto simp: collect_async_def split: sum.splits)

subsection \<open>Sequential pipelines leave the statistics alone\<close>

text \<open>
  C10. When every queued step of a stream is sequential, \<open>Stream_collect\<close> returns a
  chain state whose statistics record equals the one before the call, so each of
  \<open>processed_items\<close>, \<open>failed_items\<close>, \<open>execution_time\<close> and \<open>error_count\<close> keeps its
  value. Nothing is assumed about the result of the call: it may be a list or an
  exception.
\<close>

theorem Stream_collect_stats_unchanged:
  assumes "\<forall>t \<in> set (transforms self). sequential t"
  shows "stats (snd (Stream_collect self c)) = stats c"
proof -
  have "stats c = stats (snd (list_execute (transforms self) c))"
  proof (rule list_execute_effects [where P = "\<lambda>eff. eff = Pull" and R = "(=)"])
    show "(\<forall>t \<in> set (transforms self). sequential t) \<or> counts (\<lambda>eff. eff = Pull)"
      using assms by simp
    show "stats c' = stats (perform eff c')" if "eff = Pull" for eff and c' :: "('a, 'b) chain"
      using that by simp
  qed simp_all
  then show ?thesis by (simp add: Stream_collect_def)
qed

text \<open>
  A run that succeeds (a map and a group-by over three rows) and a run that raises
  (the map fails on the second row): the statistics are the initial ones after both.
\<close>

theorem Stream_collect_stats_unchanged_witness:
  "stats (snd (Stream_collect
       (Stream_group_by (\<lambda>x. Inr (parity x)) (Stream_map square (Stream_init None)))
       rows123))
     = ExecutionStats_init
   \<and> Stream_collect
       (Stream_map (\<lambda>x. if x = Row 2 then Inl (UserError ''boom'') else Inr x)
          (Stream_init None))
       rows123
     = (Inl (UserError ''boom''), rows123\<lparr>source := [Row 3]\<rparr>)"
proof -
  let ?s = "Stream_group_by (\<lambda>x. Inr (parity x)) (Stream_map square (Stream_init None))"
  have h: "\<forall>t \<in> set (transforms ?s). sequential t"
    by (simp add: Stream_group_by_def Stream_map_def Stream_init_def)
  have "stats (snd (Stream_collect ?s rows123)) = ExecutionStats_init"
    using Stream_collect_stats_unchanged [OF h, of rows123] by (simp add: rows123_def)
  moreover have "Stream_collect
       (Stream_map (\<lambda>x. if x = Row 2 then Inl (UserError ''boom'') else Inr x)
          (Stream_init None))
       rows123
     = (Inl (UserError ''boom''), rows123\<lparr>source := [Row 3]\<rparr>)"
    by (simp add: Stream_collect_def Stream_map_def Stream_init_def rows123_def run_defs)
  ultimately show ?thesis by blast
qed

subsection \<open>Collecting twice\<close>

text \<open>
  C1. \<open>Stream_collect\<close> on a stream over the rows 1, 2, 3 returns the three rows and
  leaves the source iterator exhausted; the second call on the same stream, in the
  state the first call left, runs the pipeline again over the exhausted source and
  returns the empty list. The cache of the stream plays no part: \<open>Stream_collect\<close>
  neither reads nor writes \<open>cached_results\<close>, unlike \<open>collect_async\<close>.
\<close>

theorem Stream_collect_second_call_empty:
  "Stream_collect (Stream_init None) rows123
     = (Inr [Row 1, Row 2, Row 3], rows123\<lparr>source := []\<rparr>)
   \<and> Stream_collect (Stream_init None) (rows123\<lparr>source := []\<rparr>)
     = (Inr [], rows123\<lparr>source := []\<rparr>)"
  by (simp add: Stream_collect_def Stream_init_def rows123_def run_defs)

lemma Stream_collect_ignores_cache:
  "Stream_collect (self\<lparr>cached_results := cached\<rparr>) c = Stream_collect self c"
  by (simp add: Stream_collect_def)

text \<open>The sibling \<open>collect_async\<close> does cache: a second call returns the first list.\<close>

lemma collect_async_cached:
  "collect_async self c = (Inr r, self', c') \<Longrightarrow> collect_async self' c'' = (Inr r, self', c'')"
  by (auto simp: collect_async_def split: option.splits prod.splits sum.splits)

subsection \<open>Reducing an empty sequence\<close>

text \<open>
  C2, as stated, fails: with the seed 100 and an empty source, \<open>reduce_async\<close> raises
  ValueError and does not return the seed (the function is one that can be pickled).
\<close>

theorem reduce_async_seed_on_empty_counterexample:
  "reduce_async (Stream_parallel None None None (Stream_init None)) add True (Some (Row 100))
          (rows123\<lparr>source := []\<rparr>) = Some (Inl ValueError, rows123\<lparr>source := []\<rparr>)
   \<and> reduce_async (Stream_parallel None None None (Stream_init None)) add True (Some (Row 100))
          (rows123\<lparr>source := []\<rparr>) \<noteq> Some (Inr (Row 100), rows123\<lparr>source := []\<rparr>)"
  by (simp add: reduce_async_def Stream_parallel_def Stream_init_def rows123_def run_defs)

text \<open>
  C2, amended. When the materialised upstream sequence is empty, \<open>reduce_async\<close> raises
  ValueError whether a seed is given or not (and whether the function can be pickled
  or not), and leaves the chain in the state the materialisation produced.
\<close>

theorem reduce_async_empty_raises:
  assumes "fst (list_execute (transforms self) c) = Inr []"
  shows "reduce_async self func picklable initial c
           = Some (Inl ValueError, snd (list_execute (transforms self) c))"
  using assms by (cases "list_execute (transforms self) c") (simp add: reduce_async_def)

theorem reduce_async_empty_raises_witness:
  "reduce_async (Stream_parallel None None None (Stream_init None)) add True (Some (Row 100))
          (rows123\<lparr>source := []\<rparr>) = Some (Inl ValueError, rows123\<lparr>source := []\<rparr>)
   \<and> reduce_async (Stream_parallel None None None (Stream_init None)) add True None
          (rows123\<lparr>source := []\<rparr>) = Some (Inl ValueError, rows123\<lparr>source := []\<rparr>)"
proof -
  let ?s = "Stream_parallel None None None (Stream_init None) :: (int, int) ParallelStream"
  let ?c = "rows123\<lparr>source := []\<rparr>"
  have l: "list_execute (transforms ?s) ?c = (Inr [], ?c)"
    by (simp add: Stream_parallel_def Stream_init_def rows123_def run_defs)
  then have h: "fst (list_execute (transforms ?s) ?c) = Inr []" by simp
  show ?thesis
    using reduce_async_empty_raises [OF h, of add True "Some (Row 100)"]
      reduce_async_empty_raises [OF h, of add True None] l by simp
qed

subsection \<open>The statistics and the assignment in reduce\<close>

lemma reduce_async_other_fields:
  assumes "reduce_async ps func picklable initial c = Some (r, c')"
  shows "failed_items (stats c) \<le> failed_items (stats c')
       \<and> execution_time (stats c) \<le> execution_time (stats c')
       \<and> error_count (stats c) \<le> error_count (stats c')"
proof -
  obtain r1 c1 where l: "list_execute (transforms ps) c = (r1, c1)"
    by (cases "list_execute (transforms ps) c")
  from list_execute_monotone [of c "transforms ps"] l have "stats_le (stats c) (stats c1)"
    by simp
  with l assms show ?thesis
    by (auto simp: reduce_async_def stats_le_def inc_error_count_def set_processed_items_def Let_def
        split: sum.splits if_splits option.splits)
qed

lemma reduce_async_processed_items:
  "reduce_async ps func picklable initial c = Some (Inr v, c') \<Longrightarrow>
   \<exists>data. fst (list_execute (transforms ps) c) = Inr data
     \<and> processed_items (stats c') = int (length data)"
  by (cases "list_execute (transforms ps) c")
    (auto simp: reduce_async_def set_processed_items_def Let_def
       split: sum.splits if_splits option.splits)

lemma collect_async_monotone:
  "stats_le (stats c) (stats (snd (snd (collect_async self c))))"
proof (cases "cached_results self")
  case None
  obtain r1 c1 where l: "list_execute (transforms self) c = (r1, c1)"
    by (cases "list_execute (transforms self) c")
  from list_execute_monotone [of c "transforms self"] l have "stats_le (stats c) (stats c1)"
    by simp
  with None l show ?thesis by (cases r1) (simp_all add: collect_async_def)
next
  case (Some cached)
  then show ?thesis by (simp add: collect_async_def stats_le_def)
qed

text \<open>
  C3. The counter \<open>processed_items\<close> does decrease. Two parallel map stages over
  three rows bring it to 6, and the reduce stage that follows assigns 3 to it: the
  statistics \<open>reduce_async\<close> returns are not above those its own materialisation
  produced. With a statistics object that already counts 5 items, \<open>reduce_async\<close> over
  three rows ends with 3. The parallel map and filter stages add to the counter; the
  reduce stage overwrites it. (The function added is one that can be pickled, and no
  wait times out.)
\<close>

theorem reduce_async_lowers_processed_items:
  "reduce_async (ParallelStream_map square (ParallelStream_map square
        (Stream_parallel None None None (Stream_init None)))) add True None rows123
     = Some (Inr (Row 98),
         rows123\<lparr>source := [], stats := ExecutionStats_init\<lparr>processed_items := 3\<rparr>\<rparr>)
   \<and> \<not> stats_le
       (stats (snd (list_execute
          (transforms (ParallelStream_map square (ParallelStream_map square
             (Stream_parallel None None None (Stream_init None))))) rows123)))
       (stats (rows123\<lparr>source := [], stats := ExecutionStats_init\<lparr>processed_items := 3\<rparr>\<rparr>))
   \<and> reduce_async (Stream_parallel None None None (Stream_init None)) add True None
        (rows123\<lparr>stats := ExecutionStats_init\<lparr>processed_items := 5\<rparr>\<rparr>)
     = Some (Inr (Row 6),
         rows123\<lparr>source := [], stats := ExecutionStats_init\<lparr>processed_items := 3\<rparr>\<rparr>)
   \<and> \<not> stats_le
       (stats (rows123\<lparr>stats := ExecutionStats_init\<lparr>processed_items := 5\<rparr>\<rparr>))
       (stats (rows123\<lparr>source := [], stats := ExecutionStats_init\<lparr>processed_items := 3\<rparr>\<rparr>))"
  by (simp add: reduce_async_def ParallelStream_map_def Stream_parallel_def
      Stream_init_def py_or_def rows123_def run_defs ExecutionStats_init_def stats_le_def
      set_processed_items_def run_in_executor_def gather_def parallel_reduce_wrapper_def
      functools_reduce_def)

text \<open>
  Everything else is monotone. \<open>Stream_collect\<close> and \<open>collect_async\<close>, with whatever
  sequential and parallel map and filter steps are queued, decrease no field of the
  statistics (\<open>list_execute_monotone\<close>, \<open>collect_async_monotone\<close>); a \<open>reduce_async\<close>
  that returns decreases none of \<open>failed_items\<close>, \<open>execution_time\<close> and \<open>error_count\<close>,
  and when it returns a value it has assigned the length of the materialised data to
  \<open>processed_items\<close>, whatever the counter held before (\<open>reduce_async_other_fields\<close>,
  \<open>reduce_async_processed_items\<close>).
\<close>

subsection \<open>Building a parallel stream\<close>

text \<open>
  C7, as stated, fails. \<open>Stream_parallel\<close> with \<open>-2\<close> workers and a chunk size of \<open>-5\<close>
  returns a stream whose configuration is invalid. With \<open>-2\<close> workers the ValueError of
  the executor comes out of the terminal call \<open>collect_async\<close>; with a chunk size of
  \<open>-5\<close> the terminal call returns an empty list for three rows, and nothing is raised
  at all.
\<close>

theorem parallel_accepts_invalid_config:
  "\<not> valid_config (config (Stream_parallel (Some (- 2)) (Some (- 5)) None (Stream_init None)))
   \<and> collect_async (ParallelStream_map square
         (Stream_parallel (Some (- 2)) (Some 5) None (Stream_init None))) rows123
      = (Inl ValueError,
         ParallelStream_map square (Stream_parallel (Some (- 2)) (Some 5) None (Stream_init None)),
         rows123\<lparr>source := []\<rparr>)
   \<and> fst (collect_async (ParallelStream_map square
         (Stream_parallel (Some 2) (Some (- 5)) None (Stream_init None))) rows123)
      = Inr []"
  by (simp add: valid_config_def collect_async_def ParallelStream_map_def Stream_parallel_def
      Stream_init_def py_or_def rows123_def run_defs)

lemma chunk_data_error: "chunk_data cfg data = Inl e \<Longrightarrow> e = ValueError"
  by (auto simp: chunk_data_def split: if_splits)

lemma list_execute_snoc_ParMap_no_workers:
  assumes "num_workers cfg \<le> 0" and "fst (list_execute ts c) = Inr data"
  shows "fst (list_execute (ts @ [ParMap cfg func]) c) = Inl ValueError"
proof -
  let ?wait = "timed_out c (length ts)"
  obtain es r where l: "run_transforms (timed_out c) 0 ts (source_iter (source c)) = (es, r)"
    by (cases "run_transforms (timed_out c) 0 ts (source_iter (source c))")
  from assms(2) l obtain it where r: "r = Inr it"
    by (cases r) (simp_all add: list_execute_def execute_def)
  obtain es' r' where p: "py_list it = (es', r')" by (cases "py_list it")
  from assms(2) l r p have r': "r' = Inr data"
    by (simp add: list_execute_def execute_def)
  have "snd (py_list (parallel_transform cfg ?wait (parallel_map_wrapper func) it))
      = Inl ValueError"
  proof (cases "chunk_data cfg data")
    case (Inl e)
    with chunk_data_error [OF Inl] p r' show ?thesis
      by (simp add: parallel_transform_def py_list_effects_prefix)
  next
    case (Inr chunks)
    with p r' assms(1) show ?thesis
      by (simp add: parallel_transform_def py_list_effects_prefix)
  qed
  with l r show ?thesis
    by (cases "py_list (parallel_transform cfg ?wait (parallel_map_wrapper func) it)")
      (simp add: list_execute_def execute_def run_transforms_snoc)
qed

text \<open>
  C7, amended. \<open>Stream_parallel\<close> validates nothing and cannot fail: it returns a
  parallel stream with the queued steps of the stream it is called on, an empty cache,
  and a configuration that holds the worker count and the chunk size it was given,
  with \<^verbatim>\<open>None\<close> and \<open>0\<close> replaced by the defaults 1 and 1000. The configuration is
  valid exactly when neither argument is negative. A negative worker count shows
  only when a terminal call runs a parallel step: whenever the steps queued before
  yield their data, \<open>collect_async\<close> after a parallel map raises the ValueError of the
  executor.
\<close>

theorem Stream_parallel_stores_arguments:
  "transforms (Stream_parallel nw cs t self) = transforms self
   \<and> cached_results (Stream_parallel nw cs t self) = None
   \<and> num_workers (config (Stream_parallel nw cs t self))
       = (case nw of None \<Rightarrow> 1 | Some n \<Rightarrow> if n = 0 then 1 else n)
   \<and> chunk_size (config (Stream_parallel nw cs t self))
       = (case cs of None \<Rightarrow> 1000 | Some n \<Rightarrow> if n = 0 then 1000 else n)
   \<and> timeout (config (Stream_parallel nw cs t self)) = t
   \<and> valid_config (config (Stream_parallel nw cs t self))
       = ((case nw of None \<Rightarrow> True | Some n \<Rightarrow> 0 \<le> n)
          \<and> (case cs of None \<Rightarrow> True | Some n \<Rightarrow> 0 \<le> n))
   \<and> (\<forall>n data. nw = Some n \<and> n < 0 \<and> fst (list_execute (transforms self) c) = Inr data \<longrightarrow>
         fst (collect_async (ParallelStream_map func (Stream_parallel nw cs t self)) c)
           = Inl ValueError)"
proof -
  have "fst (collect_async (ParallelStream_map func (Stream_parallel nw cs t self)) c)
           = Inl ValueError"
    if "nw = Some n" "n < 0" "fst (list_execute (transforms self) c) = Inr data" for n data
  proof -
    let ?ps = "Stream_parallel nw cs t self"
    from that(1,2) have "num_workers (config ?ps) \<le> 0"
      by (simp add: Stream_parallel_def py_or_def)
    moreover from that(3) have "fst (list_execute (transforms ?ps) c) = Inr data"
      by (simp add: Stream_parallel_def)
    ultimately have "fst (list_execute (transforms ?ps @ [ParMap (config ?ps) func]) c)
        = Inl ValueError"
      by (rule list_execute_snoc_ParMap_no_workers)
    then show ?thesis
      by (simp add: fst_collect_async_fresh ParallelStream_map_def)
  qed
  then show ?thesis
    by (auto simp: Stream_parallel_def py_or_def valid_config_def split: option.splits)
qed

text \<open>Minus two workers over the rows 1, 2, 3.\<close>

theorem Stream_parallel_stores_arguments_witness:
  "num_workers (config (Stream_parallel (Some (- 2)) None None
       (Stream_init None :: (int, int) BaseStream))) = - 2
   \<and> fst (list_execute (transforms (Stream_init None)) rows123) = Inr [Row 1, Row 2, Row 3]
   \<and> fst (collect_async (ParallelStream_map square
            (Stream_parallel (Some (- 2)) None None (Stream_init None))) rows123)
       = Inl ValueError"
proof -
  have l: "fst (list_execute (transforms (Stream_init None)) rows123) = Inr [Row 1, Row 2, Row 3]"
    by (simp add: Stream_init_def rows123_def run_defs)
  note t = Stream_parallel_stores_arguments
    [of "Some (- 2)" None None "Stream_init None" rows123 square]
  from t [THEN conjunct2, THEN conjunct2, THEN conjunct1]
  have "num_workers (config (Stream_parallel (Some (- 2)) None None
      (Stream_init None :: (int, int) BaseStream))) = - 2"
    by simp
  moreover from l
    t [THEN conjunct2, THEN conjunct2, THEN conjunct2, THEN conjunct2, THEN conjunct2,
       THEN conjunct2, rule_format, of "- 2" "[Row 1, Row 2, Row 3]"]
  have "fst (collect_async (ParallelStream_map square
            (Stream_parallel (Some (- 2)) None None (Stream_init None))) rows123) = Inl ValueError"
    by simp
  ultimately show ?thesis using l by simp
qed

subsection \<open>Retrying\<close>

text \<open>
  C8. With a retry count of 0 the helper returns \<^verbatim>\<open>None\<close> at once: the state of the
  operation is unchanged, so the operation was not attempted, nothing was slept and
  nothing is raised.
\<close>

theorem retry_operation_zero_returns_None:
  "retry_operation operation args 0 delay (w, slept) = (Inr None, w, slept)"
  by (simp add: retry_operation.simps)

text \<open>
  With a positive retry count the helper does not fall out of its loop: a success is
  returned at once, and an operation that fails every time is attempted as many
  times as the count says, with a sleep between two attempts, before its exception
  is raised.
\<close>

lemma retry_operation_success:
  "0 < n \<Longrightarrow> operation args w = (Inr r, w') \<Longrightarrow>
   retry_operation operation args n delay (w, slept) = (Inr (Some r), w', slept)"
  by (simp add: retry_operation.simps)

lemma retry_operation_always_failing:
  "retry_operation (\<lambda>a w. (Inl e, Suc w)) args (int (Suc k)) delay (w, slept)
     = (Inl (coroutine_raise e), w + Suc k, slept @ replicate k delay)"
proof (induction k arbitrary: w slept)
  case 0
  show ?case by (simp add: retry_operation.simps)
next
  case (Suc k)
  have eq: "int (Suc (Suc k)) - 1 = int (Suc k)" by simp
  have pos: "0 < int (Suc (Suc k))" "0 < int (Suc k)" by simp_all
  show ?case
    by (subst retry_operation.simps)
      (simp only: eq pos if_True prod.case sum.case Suc [of "Suc w" "slept @ [delay]"],
       simp add: replicate_append_same)
qed


lemma retry_operation_positive:
  "0 < n \<Longrightarrow> fst (retry_operation operation args n delay (w, slept)) \<noteq> Inr None"
proof (induction operation args n delay "(w, slept)" arbitrary: w slept rule: retry_operation.induct)
  case (1 operation args n delay w slept)
  then show ?case
    by (subst retry_operation.simps) (auto split: prod.splits sum.splits)
qed

subsection \<open>Parallel map against sequential map\<close>

lemma py_list_process_results:
  "snd (py_list (process_results d i (map Inr rs)))
     = (if \<exists>j. d = Some j \<and> i \<le> j \<and> j < i + length rs then Inl ParallelExecutionError
        else Inr (concat rs))"
proof (induction rs arbitrary: i)
  case Nil
  show ?case by simp
next
  case (Cons r rs)
  show ?case
  proof (cases "d = Some i")
    case True
    then show ?thesis by simp
  next
    case False
    define late where "late \<longleftrightarrow> (\<exists>j. d = Some j \<and> Suc i \<le> j \<and> j < Suc i + length rs)"
    obtain es2 r2 where p: "py_list (process_results d (Suc i) (map Inr rs)) = (es2, r2)"
      by (cases "py_list (process_results d (Suc i) (map Inr rs))")
    have e: "(\<exists>j. d = Some j \<and> i \<le> j \<and> j < i + length (r # rs)) \<longleftrightarrow> late"
      unfolding late_def using False by (auto simp: Suc_le_eq order_less_le)
    have r2: "r2 = (if late then Inl ParallelExecutionError else Inr (concat rs))"
      using Cons [of "Suc i"] p unfolding late_def by simp
    show ?thesis
      unfolding e using False p r2 by (simp add: py_list_yield_from)
  qed
qed

lemma py_list_py_map_total:
  "py_list (py_map (\<lambda>x. Inr (f x)) it) = (fst (py_list it), map_sum id (map f) (snd (py_list it)))"
  by (induction it) (auto split: prod.splits sum.splits)

lemma parallel_map_wrapper_total:
  "parallel_map_wrapper (\<lambda>x. Inr (f x)) chunk = Inr (map f chunk)"
  by (induction chunk) auto

text \<open>
  A parallel map stage with a valid configuration, on a function that never raises:
  it fails as its input fails, it raises ParallelExecutionError when the wait for one
  of its chunks times out, and it yields the values of the function otherwise.
\<close>

lemma py_list_parallel_map_total:
  assumes "1 \<le> chunk_size cfg" "1 \<le> num_workers cfg"
  shows "snd (py_list (parallel_transform cfg wait (parallel_map_wrapper (\<lambda>x. Inr (f x))) it))
           = (case snd (py_list it) of
                Inl e \<Rightarrow> Inl e
              | Inr data \<Rightarrow>
                  if \<exists>j. deadline cfg wait = Some j
                       \<and> j < length (range_slices (nat (chunk_size cfg)) 0 data)
                  then Inl ParallelExecutionError else Inr (map f data))"
proof -
  obtain es r where l: "py_list it = (es, r)" by (cases "py_list it")
  show ?thesis
  proof (cases r)
    case (Inl e)
    with l py_list_not_StopIteration [of it] show ?thesis
      by (simp add: parallel_transform_def py_list_effects_prefix)
  next
    case (Inr data)
    let ?chunks = "range_slices (nat (chunk_size cfg)) 0 data"
    have m: "map (parallel_map_wrapper (\<lambda>x. Inr (f x))) ?chunks = map Inr (map (map f) ?chunks)"
      by (simp add: parallel_map_wrapper_total)
    have "concat (map (map f) ?chunks) = map f (concat ?chunks)"
      by (simp add: map_concat)
    also have "concat ?chunks = data"
      using range_slices_concat [of "nat (chunk_size cfg)" 0 data] assms(1) by simp
    finally have c: "concat (map (map f) ?chunks) = map f data" .
    have "snd (py_list (process_results (deadline cfg wait) 0
            (map (parallel_map_wrapper (\<lambda>x. Inr (f x))) ?chunks)))
        = (if \<exists>j. deadline cfg wait = Some j \<and> j < length ?chunks
           then Inl ParallelExecutionError else Inr (map f data))"
      unfolding m using py_list_process_results [of "deadline cfg wait" 0 "map (map f) ?chunks"]
      by (simp add: c)
    with l Inr assms show ?thesis
      by (simp add: parallel_transform_def py_list_effects_prefix chunk_data_positive)
  qed
qed

lemma list_execute_snoc_SeqMap:
  "fst (list_execute (ts @ [SeqMap (\<lambda>x. Inr (f x))]) c)
     = map_sum id (map f) (fst (list_execute ts c))"
proof -
  obtain es r where l: "run_transforms (timed_out c) 0 ts (source_iter (source c)) = (es, r)"
    by (cases "run_transforms (timed_out c) 0 ts (source_iter (source c))")
  show ?thesis
  proof (cases r)
    case (Inl e)
    with l show ?thesis by (simp add: list_execute_def execute_def run_transforms_snoc)
  next
    case (Inr it)
    with l show ?thesis
      by (cases "py_list it")
        (simp add: list_execute_def execute_def run_transforms_snoc py_list_py_map_total)
  qed
qed

lemma list_execute_snoc_ParMap:
  assumes "1 \<le> chunk_size cfg" "1 \<le> num_workers cfg"
  shows "fst (list_execute (ts @ [ParMap cfg (\<lambda>x. Inr (f x))]) c)
     = (case fst (list_execute ts c) of
          Inl e \<Rightarrow> Inl e
        | Inr data \<Rightarrow>
            if \<exists>j. deadline cfg (timed_out c (length ts)) = Some j
                 \<and> j < length (range_slices (nat (chunk_size cfg)) 0 data)
            then Inl ParallelExecutionError else Inr (map f data))"
proof -
  obtain es r where l: "run_transforms (timed_out c) 0 ts (source_iter (source c)) = (es, r)"
    by (cases "run_transforms (timed_out c) 0 ts (source_iter (source c))")
  show ?thesis
  proof (cases r)
    case (Inl e)
    with l show ?thesis by (simp add: list_execute_def execute_def run_transforms_snoc)
  next
    case (Inr it)
    let ?par = "parallel_transform cfg (timed_out c (length ts))
                  (parallel_map_wrapper (\<lambda>x. Inr (f x))) it"
    obtain es1 r1 where p: "py_list it = (es1, r1)" by (cases "py_list it")
    obtain es2 r2 where q: "py_list ?par = (es2, r2)" by (cases "py_list ?par")
    from py_list_parallel_map_total [OF assms, of "timed_out c (length ts)" f it] p q
    have "r2 = (case r1 of
                  Inl e \<Rightarrow> Inl e
                | Inr data \<Rightarrow>
                    if \<exists>j. deadline cfg (timed_out c (length ts)) = Some j
                         \<and> j < length (range_slices (nat (chunk_size cfg)) 0 data)
                    then Inl ParallelExecutionError else Inr (map f data))"
      by simp
    with l Inr p q show ?thesis
      by (simp add: list_execute_def execute_def run_transforms_snoc)
  qed
qed

text \<open>
  C4. Let \<open>f\<close> be a pure function (it returns a value for every element and never
  raises), \<open>cs\<close> a chunk size and \<open>n\<close> a worker count, both at least one. On any
  stream and in any state of the chain, let the parallel call be: switch to parallel
  mode with \<open>n\<close>, \<open>cs\<close> and a timeout \<open>t\<close>, queue the parallel map of \<open>f\<close> and collect;
  and the sequential call: queue the sequential map of \<open>f\<close> and collect. The
  sequential call returns \<open>map f data\<close>, in the order of the materialised input
  \<open>data\<close> of the stage (or the exception of the steps queued before). When no timeout
  is set, or no wait of the stage times out, the parallel call returns the same. In
  every run, a list that the parallel call returns is the list of the sequential call.
\<close>

theorem parallel_map_matches_sequential:
  assumes "1 \<le> cs" and "1 \<le> n"
  shows "(t = None \<or> timed_out c (length (transforms self)) = None \<longrightarrow>
            fst (collect_async
                   (ParallelStream_map (\<lambda>x. Inr (f x))
                      (Stream_parallel (Some n) (Some cs) t self)) c)
              = fst (Stream_collect (Stream_map (\<lambda>x. Inr (f x)) self) c))
       \<and> (\<forall>ys. fst (collect_async
                     (ParallelStream_map (\<lambda>x. Inr (f x))
                        (Stream_parallel (Some n) (Some cs) t self)) c) = Inr ys \<longrightarrow>
                fst (Stream_collect (Stream_map (\<lambda>x. Inr (f x)) self) c) = Inr ys)
       \<and> fst (Stream_collect (Stream_map (\<lambda>x. Inr (f x)) self) c)
           = map_sum id (map f) (fst (list_execute (transforms self) c))"
proof -
  let ?ps = "Stream_parallel (Some n) (Some cs) t self"
  let ?par = "fst (collect_async (ParallelStream_map (\<lambda>x. Inr (f x)) ?ps) c)"
  let ?seq = "fst (Stream_collect (Stream_map (\<lambda>x. Inr (f x)) self) c)"
  let ?up = "fst (list_execute (transforms self) c)"
  have cfg: "1 \<le> chunk_size (config ?ps)" "1 \<le> num_workers (config ?ps)"
    using assms by (simp_all add: Stream_parallel_def py_or_def)
  have ts: "transforms ?ps = transforms self" and to: "timeout (config ?ps) = t"
    by (simp_all add: Stream_parallel_def)
  have "?par = fst (list_execute (transforms ?ps @ [ParMap (config ?ps) (\<lambda>x. Inr (f x))]) c)"
    by (simp add: fst_collect_async_fresh ParallelStream_map_def)
  also have "\<dots> = (case fst (list_execute (transforms ?ps) c) of
          Inl e \<Rightarrow> Inl e
        | Inr data \<Rightarrow>
            if \<exists>j. deadline (config ?ps) (timed_out c (length (transforms ?ps))) = Some j
                 \<and> j < length (range_slices (nat (chunk_size (config ?ps))) 0 data)
            then Inl ParallelExecutionError else Inr (map f data))"
    using cfg by (rule list_execute_snoc_ParMap)
  finally have par: "?par = (case ?up of
          Inl e \<Rightarrow> Inl e
        | Inr data \<Rightarrow>
            if \<exists>j. deadline (config ?ps) (timed_out c (length (transforms self))) = Some j
                 \<and> j < length (range_slices (nat (chunk_size (config ?ps))) 0 data)
            then Inl ParallelExecutionError else Inr (map f data))"
    by (simp only: ts)
  have seq: "?seq = map_sum id (map f) ?up"
    by (simp add: Stream_collect_def Stream_map_def list_execute_snoc_SeqMap)
  have a: "?par = ?seq" if "t = None \<or> timed_out c (length (transforms self)) = None"
  proof -
    from that to have "deadline (config ?ps) (timed_out c (length (transforms self))) = None"
      by (auto simp: deadline_def split: option.splits)
    with par seq show ?thesis by (cases ?up) simp_all
  qed
  have b: "?seq = Inr ys" if "?par = Inr ys" for ys
    using that par seq by (cases ?up) (simp_all split: if_splits)
  from a b seq show ?thesis by blast
qed

text \<open>
  Six rows squared in chunks of two by three workers, without a timeout: both calls
  return the squares in the order of the rows, and the parallel one has counted six
  items.
\<close>

theorem parallel_map_matches_sequential_witness:
  "fst (collect_async
          (ParallelStream_map (\<lambda>x. Inr (squared x))
             (Stream_parallel (Some 3) (Some 2) None (Stream_init None)))
          (rows123\<lparr>source := [Row 1, Row 2, Row 3, Row 4, Row 5, Row 6]\<rparr>))
     = Inr [Row 1, Row 4, Row 9, Row 16, Row 25, Row 36]
   \<and> fst (Stream_collect (Stream_map (\<lambda>x. Inr (squared x)) (Stream_init None))
          (rows123\<lparr>source := [Row 1, Row 2, Row 3, Row 4, Row 5, Row 6]\<rparr>))
     = Inr [Row 1, Row 4, Row 9, Row 16, Row 25, Row 36]
   \<and> processed_items (stats (snd (snd (collect_async
          (ParallelStream_map (\<lambda>x. Inr (squared x))
             (Stream_parallel (Some 3) (Some 2) None (Stream_init None)))
          (rows123\<lparr>source := [Row 1, Row 2, Row 3, Row 4, Row 5, Row 6]\<rparr>)))))
     = 6"
proof -
  let ?c = "rows123\<lparr>source := [Row 1, Row 2, Row 3, Row 4, Row 5, Row 6]\<rparr>"
  let ?ys = "[Row 1, Row 4, Row 9, Row 16, Row 25, Row 36] :: (int, int) item list"
  let ?par = "ParallelStream_map (\<lambda>x. Inr (squared x))
                (Stream_parallel (Some 3) (Some 2) None (Stream_init None))"
  have seq: "fst (Stream_collect (Stream_map (\<lambda>x. Inr (squared x)) (Stream_init None)) ?c)
      = Inr ?ys"
    by (simp add: Stream_collect_def Stream_map_def Stream_init_def rows123_def run_defs
        squared_def)
  have a: "(1::int) \<le> 2" and b: "(1::int) \<le> 3" by simp_all
  from parallel_map_matches_sequential [OF a b, of None ?c "Stream_init None" squared]
  have "fst (collect_async ?par ?c)
      = fst (Stream_collect (Stream_map (\<lambda>x. Inr (squared x)) (Stream_init None)) ?c)"
    by blast
  with seq have par: "fst (collect_async ?par ?c) = Inr ?ys" by simp
  have "processed_items (stats (snd (snd (collect_async ?par ?c)))) = 6"
    by (simp add: collect_async_def ParallelStream_map_def Stream_parallel_def Stream_init_def
        py_or_def rows123_def run_defs deadline_def squared_def ExecutionStats_init_def)
  with par seq show ?thesis by simp
qed

text \<open>
  With a timeout of ten seconds and a run in which the wait for the second chunk
  times out, the parallel call has yielded and counted the first chunk when it raises.
\<close>

lemma parallel_map_timeout_example:
  "collect_async
     (ParallelStream_map square (Stream_parallel (Some 3) (Some 2) (Some 10) (Stream_init None)))
     (rows123\<lparr>timed_out := (\<lambda>i. Some 1)\<rparr>)
   = (Inl ParallelExecutionError,
      ParallelStream_map square (Stream_parallel (Some 3) (Some 2) (Some 10) (Stream_init None)),
      rows123\<lparr>source := [], timed_out := (\<lambda>i. Some 1),
        stats := ExecutionStats_init\<lparr>processed_items := 2, error_count := 1\<rparr>\<rparr>)"
  by (simp add: collect_async_def ParallelStream_map_def Stream_parallel_def Stream_init_def
      py_or_def rows123_def run_defs deadline_def ExecutionStats_init_def)

text \<open>
  A function that raises StopIteration ends the sequential map without an exception,
  while the same function in a parallel map fails its chunk.
\<close>

lemma StopIteration_example:
  "fst (Stream_collect
          (Stream_map (\<lambda>x. if x = Row 2 then Inl StopIteration else Inr x) (Stream_init None))
          rows123) = Inr [Row 1]
   \<and> fst (collect_async
          (ParallelStream_map (\<lambda>x. if x = Row 2 then Inl StopIteration else Inr x)
             (Stream_parallel None None None (Stream_init None)))
          rows123) = Inl ParallelExecutionError"
  by (simp add: Stream_collect_def collect_async_def Stream_map_def ParallelStream_map_def
      Stream_parallel_def Stream_init_def py_or_def rows123_def run_defs deadline_def)

subsection \<open>Parallel reduce against the left fold\<close>


lemma range_slices_nonempty:
  "0 < step \<Longrightarrow> [] \<notin> set (range_slices step i data)"
proof (induction step i data rule: range_slices.induct)
  case (1 step i data)
  then show ?case
    by (subst range_slices.simps) auto
qed

lemma reduce_from_total:
  "reduce_from (\<lambda>x y. Inr (f x y)) acc xs = Inr (foldl f acc xs)"
  by (induction xs arbitrary: acc) auto

lemma parallel_reduce_wrapper_total:
  "parallel_reduce_wrapper (\<lambda>x y. Inr (f x y)) (x # xs) = Inr (foldl f x xs)"
  by (simp add: parallel_reduce_wrapper_def functools_reduce_def reduce_from_total)

lemma gather_Inr: "gather (map Inr vs) = Some (Inr vs)"
proof -
  have "failures (map Inr vs) = []" and "results (map Inr vs) = vs"
    by (induction vs) simp_all
  then show ?thesis by (simp add: gather_def)
qed

lemma plus_rows_assoc: "plus_rows (plus_rows x y) z = plus_rows x (plus_rows y z)"
  by (simp add: plus_rows_def)

lemma plus_rows_commute: "plus_rows x y = plus_rows y x"
  by (simp add: plus_rows_def)

lemma foldl_assoc:
  assumes "\<And>x y z. f (f x y) z = f x (f y z)"
  shows "foldl f (f a x) xs = f a (foldl f x xs)"
  by (induction xs arbitrary: x) (simp_all add: assms)

lemma foldl_chunks:
  assumes "\<And>x y z. f (f x y) z = f x (f y z)" and "[] \<notin> set chunks"
  shows "foldl f a (map (\<lambda>chunk. foldl f (hd chunk) (tl chunk)) chunks) = foldl f a (concat chunks)"
  using assms(2)
proof (induction chunks arbitrary: a)
  case Nil
  then show ?case by simp
next
  case (Cons chunk chunks)
  then obtain x xs where c: "chunk = x # xs" by (cases chunk) auto
  have "foldl f a chunk = f a (foldl f x xs)"
    using foldl_assoc [of f a x xs] assms(1) c by simp
  with Cons c show ?case by simp
qed

lemma reduce_chunks:
  assumes "[] \<notin> set chunks"
  shows "map (parallel_reduce_wrapper (\<lambda>x y. Inr (f x y))) chunks
           = map Inr (map (\<lambda>chunk. foldl f (hd chunk) (tl chunk)) chunks)"
  using assms
proof (induction chunks)
  case Nil
  then show ?case by simp
next
  case (Cons chunk chunks)
  then obtain x xs where "chunk = x # xs" by (cases chunk) auto
  with Cons show ?case by (simp add: parallel_reduce_wrapper_total)
qed

lemma final_reduce:
  assumes assoc: "\<And>x y z. f (f x y) z = f x (f y z)"
    and ne: "[] \<notin> set chunks" and cat: "concat chunks = x # xs"
  shows "functools_reduce (\<lambda>x y. Inr (f x y))
           (map (\<lambda>chunk. foldl f (hd chunk) (tl chunk)) chunks) initial
         = Inr (case initial of Some a \<Rightarrow> foldl f a (x # xs) | None \<Rightarrow> foldl f x xs)"
proof (cases initial)
  case (Some a)
  then show ?thesis
    using foldl_chunks [of f chunks a] assoc ne cat
    by (simp add: functools_reduce_def reduce_from_total)
next
  case None
  from cat obtain chunk rest where ch: "chunks = chunk # rest" by (cases chunks) auto
  with ne obtain y ys where c: "chunk = y # ys" by (cases chunk) auto
  from ch c cat have y: "y = x" and xs: "xs = ys @ concat rest" by simp_all
  from ne ch have "[] \<notin> set rest" by simp
  from foldl_chunks [of f rest "foldl f y ys"] assoc this
  have "foldl f (foldl f y ys) (map (\<lambda>chunk. foldl f (hd chunk) (tl chunk)) rest)
      = foldl f (foldl f y ys) (concat rest)"
    by blast
  with None ch c y xs show ?thesis
    by (simp add: functools_reduce_def reduce_from_total)
qed

text \<open>
  C9, as stated, fails. \<open>plus_rows\<close> is associative and commutative and never raises
  (\<open>plus_rows_assoc\<close>, \<open>plus_rows_commute\<close>). Passed as a function that cannot be
  pickled (a lambda), it makes \<open>reduce_async\<close> over the rows 1, 2, 3, with a valid
  configuration, raise ParallelExecutionError and count an error, where the left fold
  is 6: the workers are processes, and the tasks fail before the function is called.
\<close>

theorem reduce_async_lambda_counterexample:
  "reduce_async (Stream_parallel (Some 2) (Some 2) None (Stream_init None))
     (\<lambda>x y. Inr (plus_rows x y)) False None rows123
     = Some (Inl ParallelExecutionError,
         rows123\<lparr>source := [], stats := ExecutionStats_init\<lparr>error_count := 1\<rparr>\<rparr>)
   \<and> foldl plus_rows (Row 1) [Row 2, Row 3] = Row 6"
  by (simp add: reduce_async_def Stream_parallel_def Stream_init_def py_or_def rows123_def
      run_defs ExecutionStats_init_def inc_error_count_def run_in_executor_def gather_def
      plus_rows_def)

text \<open>
  C9, amended. Let \<open>f\<close> be associative, never raise, and be a function that can be
  pickled together with the items, and let the configuration of the stream have a
  chunk size and a worker count of at least one. When the materialised input is the
  non-empty list \<open>x # xs\<close>, \<open>reduce_async\<close> returns the left fold of \<open>f\<close> over it:
  \<open>foldl f a (x # xs)\<close> with the seed \<open>a\<close>, and \<open>foldl f x xs\<close> without a seed; and it
  has set \<open>processed_items\<close> to the length of the input. The value does not mention
  the chunk size or the worker count. The chunk results are combined in the order of
  the chunks, so commutativity is not needed.
\<close>

theorem reduce_async_is_left_fold:
  assumes "1 \<le> chunk_size (config self)" and "1 \<le> num_workers (config self)"
    and "\<And>x y z. f (f x y) z = f x (f y z)"
    and "fst (list_execute (transforms self) c) = Inr (x # xs)"
  shows "reduce_async self (\<lambda>x y. Inr (f x y)) True initial c
           = Some (Inr (case initial of Some a \<Rightarrow> foldl f a (x # xs) | None \<Rightarrow> foldl f x xs),
               set_processed_items (int (length (x # xs)))
                 (snd (list_execute (transforms self) c)))"
proof -
  let ?chunks = "range_slices (nat (chunk_size (config self))) 0 (x # xs)"
  let ?red = "\<lambda>chunk. foldl f (hd chunk) (tl chunk)"
  obtain c1 where l: "list_execute (transforms self) c = (Inr (x # xs), c1)"
    using assms(4) by (cases "list_execute (transforms self) c") auto
  have step: "0 < nat (chunk_size (config self))" using assms(1) by simp
  have ne: "[] \<notin> set ?chunks" using step by (rule range_slices_nonempty)
  have cat: "concat ?chunks = x # xs"
    using range_slices_concat [OF step, of 0 "x # xs"] by simp
  have "run_in_executor (\<lambda>x y. Inr (f x y)) True = parallel_reduce_wrapper (\<lambda>x y. Inr (f x y))"
    by (rule ext) (simp add: run_in_executor_def)
  then have g: "gather (map (run_in_executor (\<lambda>x y. Inr (f x y)) True) ?chunks)
      = Some (Inr (map ?red ?chunks))"
    by (simp only: reduce_chunks [OF ne] gather_Inr)
  have fin: "functools_reduce (\<lambda>x y. Inr (f x y)) (map ?red ?chunks) initial
      = Inr (case initial of Some a \<Rightarrow> foldl f a (x # xs) | None \<Rightarrow> foldl f x xs)"
    using assms(3) ne cat by (rule final_reduce)
  show ?thesis
    using l assms(1,2) g fin
    by (simp add: reduce_async_def chunk_data_positive Let_def)
qed

text \<open>The sum of the rows 1, 2, 3 in chunks of two, without a seed and with the seed 10.\<close>

theorem reduce_async_is_left_fold_witness:
  "reduce_async (Stream_parallel (Some 2) (Some 2) None (Stream_init None))
      (\<lambda>x y. Inr (plus_rows x y)) True None rows123
     = Some (Inr (Row 6),
         rows123\<lparr>source := [], stats := ExecutionStats_init\<lparr>processed_items := 3\<rparr>\<rparr>)
   \<and> reduce_async (Stream_parallel (Some 2) (Some 2) None (Stream_init None))
      (\<lambda>x y. Inr (plus_rows x y)) True (Some (Row 10)) rows123
     = Some (Inr (Row 16),
         rows123\<lparr>source := [], stats := ExecutionStats_init\<lparr>processed_items := 3\<rparr>\<rparr>)"
proof -
  let ?ps = "Stream_parallel (Some 2) (Some 2) None (Stream_init None) :: (int, int) ParallelStream"
  have a: "1 \<le> chunk_size (config ?ps)" and b: "1 \<le> num_workers (config ?ps)"
    by (simp_all add: Stream_parallel_def py_or_def)
  have l: "list_execute (transforms ?ps) rows123 = (Inr (Row 1 # [Row 2, Row 3]), rows123\<lparr>source := []\<rparr>)"
    by (simp add: Stream_parallel_def Stream_init_def rows123_def run_defs)
  then have l': "fst (list_execute (transforms ?ps) rows123) = Inr (Row 1 # [Row 2, Row 3])"
    by simp
  from reduce_async_is_left_fold [OF a b plus_rows_assoc l', of None]
    reduce_async_is_left_fold [OF a b plus_rows_assoc l', of "Some (Row 10)"] l
  show ?thesis
    by (simp add: plus_rows_def set_processed_items_def rows123_def ExecutionStats_init_def)
qed

subsection \<open>Grouping\<close>

lemma keyed_total: "keyed (\<lambda>x. Inr (key x)) xs = Inr (map (\<lambda>x. (key x, x)) xs)"
  by (induction xs) auto

lemma groupby_concat: "concat (map snd (groupby kvs)) = map snd kvs"
proof (induction kvs rule: groupby.induct)
  case 1
  show ?case by simp
next
  case (2 k v kvs)
  have "map snd (takeWhile (\<lambda>kv. fst kv = k) kvs) @ map snd (dropWhile (\<lambda>kv. fst kv = k) kvs)
      = map snd kvs"
    by (simp flip: map_append)
  with 2 show ?case by simp
qed

lemma groupby_keys: "fst ` set (groupby kvs) = fst ` set kvs"
proof (induction kvs rule: groupby.induct)
  case 1
  show ?case by simp
next
  case (2 k v kvs)
  let ?P = "\<lambda>kv. fst kv = k"
  have "set kvs = set (takeWhile ?P kvs) \<union> set (dropWhile ?P kvs)"
    by (metis set_append takeWhile_dropWhile_id)
  moreover have "fst ` set (takeWhile ?P kvs) \<subseteq> {k}"
    by (auto dest: set_takeWhileD)
  ultimately have "insert k (fst ` set kvs) = insert k (fst ` set (dropWhile ?P kvs))"
    by auto
  with 2 show ?case by simp
qed

lemma dropWhile_key_greater:
  fixes kvs :: "('k::linorder \<times> 'v) list"
  assumes "sorted (map fst kvs)" and "\<forall>kv \<in> set kvs. k \<le> fst kv"
    and "kv \<in> set (dropWhile (\<lambda>kv. fst kv = k) kvs)"
  shows "k < fst kv"
  using assms
proof (induction kvs)
  case Nil
  then show ?case by simp
next
  case (Cons a kvs)
  show ?case
  proof (cases "fst a = k")
    case True
    with Cons show ?thesis by simp
  next
    case False
    from Cons.prems(2) have "k \<le> fst a" by simp
    with False have "k < fst a" by (simp add: le_neq_trans)
    moreover from Cons.prems(3) False have "kv = a \<or> kv \<in> set kvs" by simp
    moreover from Cons.prems(1) have "\<forall>z \<in> set kvs. fst a \<le> fst z" by simp
    ultimately show ?thesis by auto
  qed
qed

lemma filter_takeWhile_dropWhile:
  "filter Q kvs = filter Q (takeWhile P kvs) @ filter Q (dropWhile P kvs)"
  by (simp only: filter_append [symmetric] takeWhile_dropWhile_id)

lemma groupby_sorted:
  fixes kvs :: "('k::linorder \<times> 'v) list"
  assumes "sorted (map fst kvs)"
  shows "distinct (map fst (groupby kvs))
       \<and> (\<forall>(k, g) \<in> set (groupby kvs). g = map snd (filter (\<lambda>kv. fst kv = k) kvs))"
  using assms
proof (induction kvs rule: groupby.induct)
  case 1
  show ?case by simp
next
  case (2 k v kvs)
  let ?P = "\<lambda>kv. fst kv = k"
  let ?tw = "takeWhile ?P kvs" and ?dw = "dropWhile ?P kvs"
  from "2.prems" have ge: "\<forall>kv \<in> set kvs. k \<le> fst kv" and skvs: "sorted (map fst kvs)"
    by simp_all
  from skvs have sdw: "sorted (map fst ?dw)"
    by (simp add: sorted_map)
  have gt: "k < fst kv" if "kv \<in> set ?dw" for kv
    using skvs ge that by (rule dropWhile_key_greater)
  have tw: "\<forall>kv \<in> set ?tw. fst kv = k"
    using set_takeWhileD [of _ ?P kvs] by blast
  have filt_k: "filter ?P kvs = ?tw"
  proof -
    have a: "filter ?P kvs = filter ?P ?tw @ filter ?P ?dw"
      by (rule filter_takeWhile_dropWhile)
    have b: "filter ?P ?tw = ?tw" using tw by (rule filter_True)
    have c: "filter ?P ?dw = []"
    proof (rule filter_False, rule ballI)
      fix kv assume "kv \<in> set ?dw"
      from gt [OF this] show "\<not> fst kv = k" by simp
    qed
    have "filter ?P ?tw @ filter ?P ?dw = ?tw" unfolding b c by (rule append_Nil2)
    with a show ?thesis by (rule trans)
  qed
  from "2.IH" [OF sdw]
  have dist: "distinct (map fst (groupby ?dw))"
    and grp: "\<forall>(k', g) \<in> set (groupby ?dw). g = map snd (filter (\<lambda>kv. fst kv = k') ?dw)"
    by simp_all
  have keys_gt: "k < k'" if "k' \<in> fst ` set (groupby ?dw)" for k'
  proof -
    from that have "k' \<in> fst ` set ?dw" by (simp only: groupby_keys)
    then obtain kv where "kv \<in> set ?dw" "k' = fst kv" by (rule imageE)
    with gt show ?thesis by simp
  qed
  have notin: "k \<notin> set (map fst (groupby ?dw))"
  proof
    assume "k \<in> set (map fst (groupby ?dw))"
    then have "k \<in> fst ` set (groupby ?dw)" by simp
    from keys_gt [OF this] show False by simp
  qed
  have rest: "g = map snd (filter (\<lambda>kv. fst kv = k') ((k, v) # kvs))"
    if "(k', g) \<in> set (groupby ?dw)" for k' g
  proof -
    from that have "fst (k', g) \<in> fst ` set (groupby ?dw)" by (rule imageI)
    then have lt: "k < k'" using keys_gt by simp
    from that grp have g: "g = map snd (filter (\<lambda>kv. fst kv = k') ?dw)" by blast
    let ?Q = "\<lambda>kv. fst kv = k'"
    have a: "filter ?Q kvs = filter ?Q ?tw @ filter ?Q ?dw"
      by (rule filter_takeWhile_dropWhile)
    have b: "filter ?Q ?tw = []"
    proof (rule filter_False, rule ballI)
      fix kv assume "kv \<in> set ?tw"
      with tw have "fst kv = k" by (rule bspec)
      with lt show "\<not> fst kv = k'" by simp
    qed
    have "filter ?Q ?tw @ filter ?Q ?dw = filter ?Q ?dw" unfolding b by (rule append_Nil)
    with a have eq: "filter ?Q kvs = filter ?Q ?dw" by (rule trans)
    from lt have "filter ?Q ((k, v) # kvs) = filter ?Q kvs" by simp
    then have "filter ?Q ((k, v) # kvs) = filter ?Q ?dw" using eq by (rule trans)
    with g show ?thesis by (simp only:)
  qed
  have first: "v # map snd ?tw = map snd (filter ?P ((k, v) # kvs))"
    using filt_k by simp
  have g1: "groupby ((k, v) # kvs) = (k, v # map snd ?tw) # groupby ?dw" by simp
  have "distinct (map fst (groupby ((k, v) # kvs)))"
    unfolding g1 using dist notin by simp
  moreover have "\<forall>(k', g) \<in> set (groupby ((k, v) # kvs)).
      g = map snd (filter (\<lambda>kv. fst kv = k') ((k, v) # kvs))"
    unfolding g1
  proof (rule ballI)
    fix p assume p: "p \<in> set ((k, v # map snd ?tw) # groupby ?dw)"
    obtain k' g where kg: "p = (k', g)" by (cases p)
    from p kg have "(k' = k \<and> g = v # map snd ?tw) \<or> (k', g) \<in> set (groupby ?dw)" by simp
    then have "g = map snd (filter (\<lambda>kv. fst kv = k') ((k, v) # kvs))"
      using first rest by blast
    with kg show "case p of (k', g) \<Rightarrow> g = map snd (filter (\<lambda>kv. fst kv = k') ((k, v) # kvs))"
      by simp
  qed
  ultimately show ?case by (rule conjI)
qed

lemma filter_keyed:
  "map snd (filter (\<lambda>kv. fst kv = k) (map (\<lambda>x. (key x, x)) xs)) = filter (\<lambda>x. key x = k) xs"
  by (induction xs) auto

lemma groups_of_sorted:
  fixes key :: "'v \<Rightarrow> 'k::linorder"
  defines "G \<equiv> \<lambda>xs. groupby (py_sorted (map (\<lambda>x. (key x, x)) xs))"
  shows "distinct (map fst (G xs))" and "set (map fst (G xs)) = key ` set xs"
    and "\<forall>(k, g) \<in> set (G xs). g = filter (\<lambda>x. key x = k) xs"
    and "mset (concat (map snd (G xs))) = mset xs"
proof -
  let ?dec = "map (\<lambda>x. (key x, x)) xs"
  let ?kvs = "py_sorted ?dec"
  have s: "sorted (map fst ?kvs)" by (simp add: py_sorted_def)
  from groupby_sorted [OF s]
  have d: "distinct (map fst (groupby ?kvs))"
    and g: "\<forall>(k, g) \<in> set (groupby ?kvs). g = map snd (filter (\<lambda>kv. fst kv = k) ?kvs)"
    by blast+
  from d show "distinct (map fst (G xs))" by (simp add: G_def)
  have "set (map fst (groupby ?kvs)) = fst ` set ?kvs" by (simp add: groupby_keys)
  also have "\<dots> = key ` set xs" by (force simp: py_sorted_def)
  finally show "set (map fst (G xs)) = key ` set xs" by (simp add: G_def)
  have "map snd (filter (\<lambda>kv. fst kv = k) ?kvs) = filter (\<lambda>x. key x = k) xs" for k
    unfolding py_sorted_def using sort_key_stable [of fst k ?dec] filter_keyed [of k key xs]
    by simp
  with g show "\<forall>(k, g) \<in> set (G xs). g = filter (\<lambda>x. key x = k) xs"
    by (auto simp: G_def)
  have "mset (concat (map snd (groupby ?kvs))) = mset (map snd ?kvs)"
    by (simp only: groupby_concat)
  also have "\<dots> = mset (map snd ?dec)"
    by (simp only: py_sorted_def mset_map mset_sort)
  also have "map snd ?dec = xs" by (induction xs) simp_all
  finally have "mset (concat (map snd (groupby ?kvs))) = mset xs" .
  then show "mset (concat (map snd (G xs))) = mset xs" by (simp add: G_def)
qed

lemma list_execute_snoc_GroupBy:
  "fst (list_execute (ts @ [GroupBy (\<lambda>x. Inr (key x))]) c)
     = (case fst (list_execute ts c) of
          Inl e \<Rightarrow> Inl StreamError
        | Inr xs \<Rightarrow>
            Inr (map (\<lambda>(k, g). Group k g) (groupby (py_sorted (map (\<lambda>x. (key x, x)) xs)))))"
proof -
  obtain es r where l: "run_transforms (timed_out c) 0 ts (source_iter (source c)) = (es, r)"
    by (cases "run_transforms (timed_out c) 0 ts (source_iter (source c))")
  show ?thesis
  proof (cases r)
    case (Inl e)
    with l show ?thesis by (simp add: list_execute_def execute_def run_transforms_snoc)
  next
    case (Inr it)
    obtain es' r' where p: "py_list it = (es', r')" by (cases "py_list it")
    show ?thesis
    proof (cases r')
      case (Inl e)
      with l Inr p show ?thesis
        by (simp add: list_execute_def execute_def run_transforms_snoc group_by_transform_def)
    next
      case (Inr xs)
      with l \<open>r = Inr it\<close> p show ?thesis
        by (simp add: list_execute_def execute_def run_transforms_snoc group_by_transform_def
            keyed_total py_list_yield_from)
    qed
  qed
qed

text \<open>
  C6. Let \<open>key\<close> be a function into a linearly ordered type that never raises, and let
  \<open>xs\<close> be the materialised input of the group-by step. Collecting after \<open>group_by\<close>
  returns one \<open>Group k g\<close> per pair \<open>(k, g)\<close> of a list \<open>G\<close> in which no key occurs
  twice, the keys are exactly the keys of the elements of \<open>xs\<close>, the list \<open>g\<close> of a key
  \<open>k\<close> consists of all elements of \<open>xs\<close> with that key, wherever they stood (in the
  order in which they stood), and the groups together hold every element of \<open>xs\<close> as
  often as \<open>xs\<close> does.
\<close>

theorem group_by_groups_every_element:
  fixes key :: "('a, 'k::linorder) item \<Rightarrow> 'k"
  assumes "fst (list_execute (transforms self) c) = Inr xs"
  shows "\<exists>G. fst (Stream_collect (Stream_group_by (\<lambda>x. Inr (key x)) self) c)
               = Inr (map (\<lambda>(k, g). Group k g) G)
           \<and> distinct (map fst G)
           \<and> set (map fst G) = key ` set xs
           \<and> (\<forall>(k, g) \<in> set G. g = filter (\<lambda>x. key x = k) xs)
           \<and> mset (concat (map snd G)) = mset xs"
proof -
  let ?G = "groupby (py_sorted (map (\<lambda>x. (key x, x)) xs))"
  have "fst (Stream_collect (Stream_group_by (\<lambda>x. Inr (key x)) self) c)
      = Inr (map (\<lambda>(k, g). Group k g) ?G)"
    using assms by (simp add: Stream_collect_def Stream_group_by_def list_execute_snoc_GroupBy)
  moreover note groups_of_sorted [of key xs]
  ultimately show ?thesis by (intro exI [of _ ?G] conjI)
qed

text \<open>The rows 1, 2, 3 by parity: the even row, then the two odd rows.\<close>

theorem group_by_groups_every_element_witness:
  "fst (Stream_collect (Stream_group_by (\<lambda>x. Inr (parity x)) (Stream_init None)) rows123)
     = Inr [Group 0 [Row 2], Group 1 [Row 1, Row 3]]
   \<and> (\<exists>G. fst (Stream_collect (Stream_group_by (\<lambda>x. Inr (parity x)) (Stream_init None)) rows123)
               = Inr (map (\<lambda>(k, g). Group k g) G)
           \<and> distinct (map fst G)
           \<and> mset (concat (map snd G)) = mset [Row 1, Row 2, Row 3])"
proof -
  have l: "fst (list_execute (transforms (Stream_init None)) rows123) = Inr [Row 1, Row 2, Row 3]"
    by (simp add: Stream_init_def rows123_def run_defs)
  have "fst (Stream_collect (Stream_group_by (\<lambda>x. Inr (parity x)) (Stream_init None)) rows123)
     = Inr [Group 0 [Row 2], Group 1 [Row 1, Row 3]]"
    by (simp add: Stream_collect_def Stream_group_by_def Stream_init_def rows123_def run_defs
        group_by_transform_def py_sorted_def)
  moreover from group_by_groups_every_element [OF l, of parity]
  have "\<exists>G. fst (Stream_collect (Stream_group_by (\<lambda>x. Inr (parity x)) (Stream_init None)) rows123)
               = Inr (map (\<lambda>(k, g). Group k g) G)
           \<and> distinct (map fst G)
           \<and> mset (concat (map snd G)) = mset [Row 1, Row 2, Row 3]"
    by blast
  ultimately show ?thesis by (rule conjI)
qed

end
